theory Spec2Isabelle
  imports Main "HOL-Library.Product_Lexorder"
begin

section \<open>The merge synchronizer: \<open>zip_processors\<close>\<close>

subsection \<open>Objects and composite keys\<close>

text \<open>
  An OSM object has one of five types; \<open>type_str()\<close> returns the one-letter tag
  \<open>'n'\<close>, \<open>'w'\<close>, \<open>'r'\<close>, \<open>'a'\<close> or \<open>'c'\<close>. The field \<open>payload\<close> stands for the
  rest of the object (tags, version, members), which the merge never inspects.
\<close>

datatype otype = Node | Way | Relation | Area | Changeset

record osm_object =
  type_str :: otype
  obj_id :: int
  payload :: nat

text \<open>\<open>TID = {'n': 0, 'w': 1, 'r': 2, 'a': 3, 'c': 4}\<close>\<close>

fun TID :: "otype \<Rightarrow> int" where
  "TID Node = 0"
| "TID Way = 1"
| "TID Relation = 2"
| "TID Area = 3"
| "TID Changeset = 4"

text \<open>
  Keys are Python tuples \<open>(TID[type], id)\<close>, compared lexicographically; the order on
  pairs of integers used below is the lexicographic one.
\<close>

type_synonym key = "int \<times> int"

definition okey :: "osm_object \<Rightarrow> key" where
  "okey x = (TID (type_str x), obj_id x)"

text \<open>The end of file marker \<open>(100, 0)\<close>.\<close>

definition eof_marker :: key where
  "eof_marker = (100, 0)"

subsection \<open>The cursor class \<open>_CompIter\<close>\<close>

text \<open>
  A processor is modelled by the finite sequence of objects its iterator emits.
  \<open>iter\<close> is what the iterator has not emitted yet; \<open>current\<close> and \<open>comp\<close> are \<open>None\<close>
  until the first call of \<open>next\<close>.
\<close>

record CompIter =
  iter :: "osm_object list"
  current :: "osm_object option"
  comp :: "key option"

definition CompIter_init :: "osm_object list \<Rightarrow> CompIter" where
  "CompIter_init fp = \<lparr>iter = fp, current = None, comp = None\<rparr>"

text \<open>\<open>val(nextid)\<close>: the current object if it corresponds to the given key.\<close>

definition CompIter_val :: "key \<Rightarrow> CompIter \<Rightarrow> osm_object option" where
  "CompIter_val nextid ci = (if comp ci = Some nextid then current ci else None)"

text \<open>
  \<open>next(nextid)\<close>: fetch the next object if and only if \<open>nextid\<close> is the key of the
  object returned before; the method returns \<open>comp\<close> of the updated cursor.
  \<open>next(self.iter, None)\<close> on an exhausted iterator gives \<open>None\<close>.
\<close>

definition CompIter_next :: "key option \<Rightarrow> CompIter \<Rightarrow> CompIter" where
  "CompIter_next nextid ci =
     (if comp ci = nextid then
        (case iter ci of
           [] \<Rightarrow> ci\<lparr>current := None, comp := Some (100, 0)\<rparr>
         | x # xs \<Rightarrow> ci\<lparr>iter := xs, current := Some x,
                         comp := Some (TID (type_str x), obj_id x)\<rparr>)
      else ci)"

subsection \<open>The generator\<close>

text \<open>
  The exceptions of the module: \<open>ValueError\<close>, \<open>TypeError\<close> and \<open>RuntimeError\<close> are
  Python's; \<open>ExternalError\<close> stands for whatever a collaborator outside the module
  raises (a reader on a damaged file, the index factory on an unknown name), with a code
  to tell them apart.

  \<open>min(...)\<close> of no arguments raises \<open>ValueError\<close>. A \<open>None\<close> among the arguments cannot
  be ordered against a tuple, and a lone \<open>None\<close> is returned by \<open>min\<close> and then fails at
  \<open>nextid[0]\<close>: both are a \<open>TypeError\<close> before anything else happens.
\<close>

datatype error = ValueError | TypeError | RuntimeError | ExternalError nat

fun py_min :: "key option list \<Rightarrow> error + key" where
  "py_min [] = Inl ValueError"
| "py_min (k # ks) =
     (case those (k # ks) of
        None \<Rightarrow> Inl TypeError
      | Some [] \<Rightarrow> Inl ValueError
      | Some (m # ms) \<Rightarrow> Inr (fold min ms m))"

text \<open>
  Line 158 yields a generator expression, \<open>(i.val(nextid) for i in iters)\<close>. It is lazy:
  it holds the list \<open>iters\<close> and evaluates \<open>i.val(nextid)\<close> only when the caller consumes
  it, with the value the variable \<open>nextid\<close> has then (line 160 rebinds it) and with the
  cursors as they are then (line 145 moves them). So what the generator gives at a
  \<open>yield\<close> is not a tuple of records but a view on its own state. The state of the
  suspended generator is its cursors and \<open>nextid\<close>; \<open>read_tuple\<close> is what consuming a
  yielded expression gives while the generator is in that state.
\<close>

type_synonym gen_state = "CompIter list \<times> key"

definition read_tuple :: "gen_state \<Rightarrow> osm_object option list" where
  "read_tuple st = map (CompIter_val (snd st)) (fst st)"

text \<open>
  Running the generator to its end gives its state at every \<open>yield\<close>, in order, and the
  way it ended: the \<open>while\<close> test failed (\<open>Stopped\<close>, with the state it had then) or an
  exception left the generator.
\<close>

datatype outcome = Stopped gen_state | Raised error

definition cursor_weight :: "CompIter \<Rightarrow> nat" where
  "cursor_weight ci = length (iter ci) + (if comp ci = Some (100, 0) then 0 else 1)"

function zip_loop :: "CompIter list \<Rightarrow> key \<Rightarrow> gen_state list \<times> outcome" where
  "zip_loop iters nextid =
     (if fst nextid < 100 then
        (let iters' = map (CompIter_next (Some nextid)) iters
         in case py_min (map comp iters') of
              Inl e \<Rightarrow> ([(iters, nextid)], Raised e)
            | Inr nextid' \<Rightarrow>
                (case zip_loop iters' nextid' of
                   (ys, r) \<Rightarrow> ((iters, nextid) # ys, r)))
      else ([], Stopped (iters, nextid)))"
  by pat_completeness auto

text \<open>
  The loop ends: every pass either advances a cursor, which consumes an object or turns
  a real key into the end of file marker, or leaves all cursors alone and moves \<open>nextid\<close>
  onto the key of one of them.
\<close>

lemma cursor_weight_next_le:
  "cursor_weight (CompIter_next (Some k) ci) \<le> cursor_weight ci"
  by (auto simp: cursor_weight_def CompIter_next_def split: list.splits)

lemma cursor_weight_next_less:
  "comp ci = Some k \<Longrightarrow> fst k < 100 \<Longrightarrow>
   cursor_weight (CompIter_next (Some k) ci) < cursor_weight ci"
  by (auto simp: cursor_weight_def CompIter_next_def split: list.splits)

lemma CompIter_next_other:
  "comp ci \<noteq> nextid \<Longrightarrow> CompIter_next nextid ci = ci"
  by (simp add: CompIter_next_def)

lemma sum_weight_le:
  "sum_list (map cursor_weight (map (CompIter_next (Some k)) cs)) \<le> sum_list (map cursor_weight cs)"
  by (induction cs) (auto intro: add_mono cursor_weight_next_le)

lemma sum_weight_less:
  "\<exists>ci\<in>set cs. comp ci = Some k \<Longrightarrow> fst k < 100 \<Longrightarrow>
   sum_list (map cursor_weight (map (CompIter_next (Some k)) cs)) < sum_list (map cursor_weight cs)"
proof (induction cs)
  case Nil
  then show ?case by simp
next
  case (Cons c cs)
  show ?case
  proof (cases "comp c = Some k")
    case True
    from cursor_weight_next_less[OF True Cons.prems(2)] sum_weight_le[of k cs]
    show ?thesis by simp
  next
    case False
    with Cons.prems have "\<exists>ci\<in>set cs. comp ci = Some k" by auto
    from Cons.IH[OF this Cons.prems(2)] cursor_weight_next_le[of k c]
    show ?thesis by simp
  qed
qed

lemma map_next_unchanged:
  "\<forall>ci\<in>set cs. comp ci \<noteq> Some k \<Longrightarrow> map (CompIter_next (Some k)) cs = cs"
  by (induction cs) (auto simp: CompIter_next_other)

lemma fold_min_in: "fold min ms (m::key) \<in> set (m # ms)"
proof (induction ms arbitrary: m)
  case Nil
  then show ?case by simp
next
  case (Cons a ms)
  from Cons.IH[of "min m a"] show ?case by (auto simp: min_def split: if_splits)
qed

lemma those_Some_map: "those xs = Some ys \<Longrightarrow> xs = map Some ys"
  by (induction xs arbitrary: ys) (auto split: option.splits)

lemma py_min_in: "py_min ks = Inr m \<Longrightarrow> Some m \<in> set ks"
proof (cases ks)
  case Nil
  assume "py_min ks = Inr m"
  with Nil show ?thesis by simp
next
  case (Cons k ks')
  assume a: "py_min ks = Inr m"
  with Cons obtain z zs where t: "those ks = Some (z # zs)" and m: "m = fold min zs z"
    by (auto split: option.splits list.splits)
  from those_Some_map[OF t] have "ks = map Some (z # zs)" .
  moreover from fold_min_in[of zs z] m have "m \<in> set (z # zs)" by simp
  ultimately show ?thesis by auto
qed

termination zip_loop
proof (relation "measures [\<lambda>(cs, k). sum_list (map cursor_weight cs),
                           \<lambda>(cs, k). if \<exists>ci\<in>set cs. comp ci = Some k then 0 else 1]", goal_cases)
  case 1
  then show ?case by simp
next
  case (2 iters nextid iters' nextid')
  show ?case
  proof (cases "\<exists>ci\<in>set iters. comp ci = Some nextid")
    case True
    from sum_weight_less[OF True 2(1)] 2(2) show ?thesis by simp
  next
    case False
    then have same: "iters' = iters" using 2(2) map_next_unchanged[of iters nextid] by simp
    from py_min_in[OF 2(3)] same have "\<exists>ci\<in>set iters. comp ci = Some nextid'" by auto
    with False same show ?thesis by simp
  qed
qed

text \<open>
  \<open>zip_processors(*procs)\<close>: one cursor per processor, each advanced once, then the loop.
  A processor is taken as the finite sequence of objects its iterator emits.
\<close>

definition zip_processors :: "osm_object list list \<Rightarrow> gen_state list \<times> outcome" where
  "zip_processors procs =
     (let iters = map CompIter_init procs;
          iters' = map (CompIter_next None) iters
      in case py_min (map comp iters') of
           Inl e \<Rightarrow> ([], Raised e)
         | Inr nextid \<Rightarrow> zip_loop iters' nextid)"

text \<open>
  Two callers. The first consumes every yielded expression before it resumes the
  generator, as \<open>for a, b in zip_processors(p, q)\<close> does. The second collects what the
  generator yields and consumes it when the generator has finished, as
  \<open>[tuple(t) for t in list(zip_processors(p, q))]\<close> does; if the generator raises, the
  exception reaches this caller and it has no tuples.
\<close>

definition tuples_read_at_yield :: "osm_object list list \<Rightarrow> osm_object option list list" where
  "tuples_read_at_yield procs = map read_tuple (fst (zip_processors procs))"

definition tuples_read_after :: "osm_object list list \<Rightarrow> osm_object option list list" where
  "tuples_read_after procs =
     (case snd (zip_processors procs) of
        Stopped final \<Rightarrow> map (\<lambda>st. read_tuple final) (fst (zip_processors procs))
      | Raised e \<Rightarrow> [])"

declare zip_loop.simps [simp del]

subsection \<open>What the merge is to compute\<close>

text \<open>
  The keys present in any stream, the record a stream holds at a key (\<open>None\<close> is the
  absence marker), and the aligned output: one tuple per distinct key in ascending order,
  slot \<open>i\<close> holding stream \<open>i\<close>'s record at that key.
\<close>

definition all_keys :: "osm_object list list \<Rightarrow> key set" where
  "all_keys procs = (\<Union>p\<in>set procs. okey ` set p)"

definition record_at :: "key \<Rightarrow> osm_object list \<Rightarrow> osm_object option" where
  "record_at k p = find (\<lambda>x. okey x = k) p"

definition aligned_tuples :: "osm_object list list \<Rightarrow> osm_object option list list" where
  "aligned_tuples procs = map (\<lambda>k. map (record_at k) procs) (sorted_list_of_set (all_keys procs))"


subsection \<open>The cursor invariant\<close>

text \<open>
  What a cursor still has to deliver: its current object and the objects not fetched yet.
  After the first \<open>next\<close>, \<open>comp\<close> is the key of the current object, or the end of file
  marker when the stream is used up. \<open>cursor_ok\<close> adds that what is left is strictly
  ascending.
\<close>

definition pending :: "CompIter \<Rightarrow> osm_object list" where
  "pending ci = (case current ci of None \<Rightarrow> [] | Some x \<Rightarrow> x # iter ci)"

definition cursor_live :: "CompIter \<Rightarrow> bool" where
  "cursor_live ci \<longleftrightarrow>
     comp ci = Some (case current ci of None \<Rightarrow> (100, 0) | Some x \<Rightarrow> okey x) \<and>
     (current ci = None \<longrightarrow> iter ci = [])"

definition cursor_ok :: "CompIter \<Rightarrow> bool" where
  "cursor_ok ci \<longleftrightarrow> cursor_live ci \<and> sorted_wrt (<) (map okey (pending ci))"

definition pending_keys :: "CompIter list \<Rightarrow> key set" where
  "pending_keys iters = (\<Union>ci\<in>set iters. okey ` set (pending ci))"

lemma TID_bound: "0 \<le> TID t \<and> TID t \<le> 4"
  by (cases t) simp_all

lemma fst_okey: "fst (okey x) < 100"
  using TID_bound[of "type_str x"] by (simp add: okey_def)

lemma okey_less_eof: "okey x < (100, 0)"
  using TID_bound[of "type_str x"] by (simp add: okey_def)

lemma okey_not_eof: "okey x \<noteq> (100, 0)"
  using fst_okey[of x] by auto

lemma cursor_live_next: "cursor_live ci \<Longrightarrow> cursor_live (CompIter_next (Some k) ci)"
  by (auto simp: cursor_live_def CompIter_next_def okey_def[symmetric]
           split: list.splits option.splits)

lemma pending_next:
  "cursor_live ci \<Longrightarrow> fst k < 100 \<Longrightarrow>
   pending (CompIter_next (Some k) ci) = (if comp ci = Some k then tl (pending ci) else pending ci)"
  by (auto simp: cursor_live_def CompIter_next_def pending_def
           split: list.splits option.splits)

lemma cursor_ok_next: "cursor_ok ci \<Longrightarrow> cursor_ok (CompIter_next (Some k) ci)"
  by (auto simp: cursor_ok_def cursor_live_def CompIter_next_def pending_def okey_def[symmetric]
           split: list.splits option.splits)

lemma cursor_live_comp: "cursor_live ci \<Longrightarrow> \<exists>c. comp ci = Some c"
  by (simp add: cursor_live_def)

lemma comp_in_pending:
  "cursor_live ci \<Longrightarrow> comp ci = Some c \<Longrightarrow> fst c < 100 \<Longrightarrow> c \<in> okey ` set (pending ci)"
  by (auto simp: cursor_live_def pending_def split: option.splits)

lemma comp_head:
  "cursor_live ci \<Longrightarrow> comp ci = Some c \<Longrightarrow> fst c < 100 \<Longrightarrow>
   \<exists>x xs. pending ci = x # xs \<and> okey x = c"
  by (auto simp: cursor_live_def pending_def split: option.splits)

lemma comp_eof:
  "cursor_live ci \<Longrightarrow> comp ci = Some c \<Longrightarrow> \<not> fst c < 100 \<Longrightarrow>
   c = (100, 0) \<and> pending ci = [] \<and> current ci = None"
  using fst_okey by (auto simp: cursor_live_def pending_def split: option.splits)

lemma comp_below_eof: "cursor_live ci \<Longrightarrow> comp ci = Some c \<Longrightarrow> c \<le> (100, 0)"
  using okey_less_eof by (auto simp: cursor_live_def split: option.splits intro: less_imp_le)

lemma cursor_weight_pending: "cursor_live ci \<Longrightarrow> cursor_weight ci = length (pending ci)"
  by (auto simp: cursor_live_def cursor_weight_def pending_def okey_not_eof split: option.splits)

lemma comp_le_pending:
  "cursor_ok ci \<Longrightarrow> comp ci = Some c \<Longrightarrow> k \<in> okey ` set (pending ci) \<Longrightarrow> c \<le> k"
  by (auto simp: cursor_ok_def cursor_live_def pending_def split: option.splits)

lemma val_record_at:
  "cursor_ok ci \<Longrightarrow> comp ci = Some c \<Longrightarrow> k \<le> c \<Longrightarrow> fst k < 100 \<Longrightarrow>
   CompIter_val k ci = record_at k (pending ci)"
  by (fastforce simp: cursor_ok_def cursor_live_def pending_def CompIter_val_def record_at_def
                find_None_iff2
           split: option.splits)

lemma keys_next:
  "cursor_ok ci \<Longrightarrow> comp ci = Some c \<Longrightarrow> k \<le> c \<Longrightarrow> fst k < 100 \<Longrightarrow>
   okey ` set (pending (CompIter_next (Some k) ci)) = okey ` set (pending ci) - {k}"
  by (auto simp: pending_next cursor_ok_def)
     (auto simp: cursor_ok_def cursor_live_def pending_def split: option.splits)

lemma record_at_next:
  "cursor_ok ci \<Longrightarrow> k' \<noteq> k \<Longrightarrow> fst k < 100 \<Longrightarrow>
   record_at k' (pending (CompIter_next (Some k) ci)) = record_at k' (pending ci)"
  by (auto simp: pending_next cursor_ok_def)
     (auto simp: cursor_ok_def cursor_live_def pending_def record_at_def split: option.splits)

lemma cursor_live_first: "cursor_live (CompIter_next None (CompIter_init p))"
  by (auto simp: cursor_live_def CompIter_next_def CompIter_init_def okey_def[symmetric]
           split: list.splits)

lemma pending_first: "pending (CompIter_next None (CompIter_init p)) = p"
  by (auto simp: CompIter_next_def CompIter_init_def pending_def split: list.splits)

lemma cursor_ok_first:
  "sorted_wrt (<) (map okey p) \<Longrightarrow> cursor_ok (CompIter_next None (CompIter_init p))"
  by (simp add: cursor_ok_def cursor_live_first pending_first)

lemma those_map_Some: "those (map Some xs) = Some xs"
  by (induction xs) simp_all

lemma py_min_Min:
  assumes "ks \<noteq> []"
  shows "py_min (map Some ks) = Inr (Min (set ks))"
proof -
  from assms obtain m ms where ks: "ks = m # ms" by (cases ks) auto
  have "those (map Some ks) = Some (m # ms)" unfolding ks by (rule those_map_Some)
  then have "py_min (map Some ks) = Inr (fold min ms m)" by (simp add: ks)
  also have "fold min ms m = Min (set ks)" unfolding ks by (rule Min.set_eq_fold[symmetric])
  finally show ?thesis .
qed

lemma py_min_cursors:
  assumes ne: "iters \<noteq> []" and ok: "\<forall>ci\<in>set iters. cursor_live ci"
  shows "\<exists>m. py_min (map comp iters) = Inr m \<and> (\<exists>ci\<in>set iters. comp ci = Some m) \<and>
             (\<forall>ci\<in>set iters. \<forall>c. comp ci = Some c \<longrightarrow> m \<le> c)"
proof -
  let ?ks = "map (\<lambda>ci. the (comp ci)) iters"
  have sel: "comp ci = Some (the (comp ci))" if "ci \<in> set iters" for ci
    using ok that cursor_live_comp by fastforce
  then have eq: "map comp iters = map Some ?ks" by simp
  from ne have kne: "?ks \<noteq> []" by simp
  have pm: "py_min (map comp iters) = Inr (Min (set ?ks))"
    unfolding eq using kne by (rule py_min_Min)
  have "Min (set ?ks) \<in> set ?ks" using kne by (intro Min_in) auto
  then obtain ci where ci: "ci \<in> set iters" "Min (set ?ks) = the (comp ci)" by auto
  with sel[of ci] have "comp ci = Some (Min (set ?ks))" by simp
  moreover have "\<forall>ci\<in>set iters. \<forall>c. comp ci = Some c \<longrightarrow> Min (set ?ks) \<le> c"
  proof (intro ballI allI impI)
    fix cj c assume "cj \<in> set iters" "comp cj = Some c"
    then have "c \<in> set ?ks" by force
    then show "Min (set ?ks) \<le> c" by simp
  qed
  ultimately show ?thesis using pm ci(1) by blast
qed

lemma py_min_unique:
  assumes "py_min (map comp iters) = Inr m" and ne: "iters \<noteq> []"
    and ok: "\<forall>ci\<in>set iters. cursor_live ci"
  shows "(\<exists>ci\<in>set iters. comp ci = Some m) \<and> (\<forall>ci\<in>set iters. \<forall>c. comp ci = Some c \<longrightarrow> m \<le> c)"
  using py_min_cursors[OF ne ok] assms(1) by auto


subsection \<open>How the loop runs, for any streams\<close>

lemma zip_loop_step:
  assumes "fst nextid < 100" and "py_min (map comp (map (CompIter_next (Some nextid)) iters)) = Inr nextid'"
  shows "zip_loop iters nextid =
           ((iters, nextid) # fst (zip_loop (map (CompIter_next (Some nextid)) iters) nextid'),
            snd (zip_loop (map (CompIter_next (Some nextid)) iters) nextid'))"
  using assms by (subst zip_loop.simps) (simp add: Let_def split: prod.splits)

lemma zip_loop_stop: "\<not> fst nextid < 100 \<Longrightarrow> zip_loop iters nextid = ([], Stopped (iters, nextid))"
  by (subst zip_loop.simps) simp

lemma sum_pending_weight:
  "\<forall>ci\<in>set iters. cursor_live ci \<Longrightarrow>
   sum_list (map (\<lambda>ci. length (pending ci)) iters) = sum_list (map cursor_weight iters)"
  by (induction iters) (auto simp: cursor_weight_pending)

lemma pending_keys_step:
  assumes live: "\<forall>ci\<in>set iters. cursor_live ci" and k: "fst nextid < 100"
    and c0: "c0 \<in> set iters" "comp c0 = Some nextid"
  shows "pending_keys iters = insert nextid (pending_keys (map (CompIter_next (Some nextid)) iters))"
proof (intro set_eqI iffI)
  fix k' assume "k' \<in> pending_keys iters"
  then obtain ci x where ci: "ci \<in> set iters" "x \<in> set (pending ci)" "k' = okey x"
    by (auto simp: pending_keys_def)
  from live ci(1) have l: "cursor_live ci" by blast
  show "k' \<in> insert nextid (pending_keys (map (CompIter_next (Some nextid)) iters))"
  proof (cases "comp ci = Some nextid")
    case True
    from comp_head[OF l True k] obtain y ys where p: "pending ci = y # ys" "okey y = nextid" by blast
    with ci(2) have "x = y \<or> x \<in> set ys" by simp
    then show ?thesis
    proof
      assume "x = y" with p ci(3) show ?thesis by simp
    next
      assume "x \<in> set ys"
      then have "x \<in> set (pending (CompIter_next (Some nextid) ci))"
        using pending_next[OF l k] True p by simp
      with ci(1,3) show ?thesis by (auto simp: pending_keys_def)
    qed
  next
    case False
    then have "pending (CompIter_next (Some nextid) ci) = pending ci"
      using pending_next[OF l k] by simp
    with ci(2) have "x \<in> set (pending (CompIter_next (Some nextid) ci))" by simp
    with ci(1,3) have "k' \<in> pending_keys (map (CompIter_next (Some nextid)) iters)"
      unfolding pending_keys_def by force
    then show ?thesis by simp
  qed
next
  fix k' assume a: "k' \<in> insert nextid (pending_keys (map (CompIter_next (Some nextid)) iters))"
  show "k' \<in> pending_keys iters"
  proof (cases "k' = nextid")
    case True
    from comp_in_pending[OF _ c0(2) k] live c0(1) show ?thesis
      unfolding True by (auto simp: pending_keys_def)
  next
    case False
    with a obtain ci x where ci: "ci \<in> set iters" "x \<in> set (pending (CompIter_next (Some nextid) ci))"
      "k' = okey x"
      by (auto simp: pending_keys_def)
    from live ci(1) have l: "cursor_live ci" by blast
    from ci(2) pending_next[OF l k] have "x \<in> set (pending ci)"
      by (cases "pending ci") (auto split: if_splits)
    with ci(1,3) show ?thesis by (auto simp: pending_keys_def)
  qed
qed

lemma zip_loop_general:
  assumes "iters \<noteq> []" and "\<forall>ci\<in>set iters. cursor_live ci" and "py_min (map comp iters) = Inr nextid"
  shows "(\<exists>fin. snd (zip_loop iters nextid) = Stopped (fin, (100, 0)) \<and> length fin = length iters \<and>
             (\<forall>ci\<in>set fin. comp ci = Some (100, 0) \<and> current ci = None)) \<and>
         snd ` set (fst (zip_loop iters nextid)) = pending_keys iters \<and>
         length (fst (zip_loop iters nextid)) \<le> sum_list (map (\<lambda>ci. length (pending ci)) iters) \<and>
         (\<forall>st\<in>set (fst (zip_loop iters nextid)). length (fst st) = length iters)"
  using assms
proof (induction iters nextid rule: zip_loop.induct)
  case (1 iters nextid)
  note ne = "1.prems"(1) and live = "1.prems"(2) and pm = "1.prems"(3)
  from py_min_unique[OF pm ne live]
  obtain c0 where c0: "c0 \<in> set iters" "comp c0 = Some nextid"
    and low: "\<And>ci c. ci \<in> set iters \<Longrightarrow> comp ci = Some c \<Longrightarrow> nextid \<le> c"
    by blast
  show ?case
  proof (cases "fst nextid < 100")
    case False
    from comp_eof[OF _ c0(2) False] live c0(1) have nid: "nextid = (100, 0)" by blast
    have all: "comp ci = Some (100, 0) \<and> current ci = None \<and> pending ci = []"
      if "ci \<in> set iters" for ci
    proof -
      from live that have l: "cursor_live ci" by blast
      then obtain c where c: "comp ci = Some c" by (meson cursor_live_comp)
      from low[OF that c] nid have "\<not> fst c < 100" by (cases c) auto
      from comp_eof[OF l c this] c show ?thesis by simp
    qed
    then have "pending_keys iters = {}" by (simp add: pending_keys_def)
    moreover have "sum_list (map (\<lambda>ci. length (pending ci)) iters) = 0" using all by simp
    moreover have "zip_loop iters nextid = ([], Stopped (iters, (100, 0)))"
      using zip_loop_stop[OF False] nid by simp
    ultimately show ?thesis using all by simp
  next
    case True
    define iters' where "iters' = map (CompIter_next (Some nextid)) iters"
    have live': "\<forall>ci\<in>set iters'. cursor_live ci"
      using live by (auto simp: iters'_def intro: cursor_live_next)
    have ne': "iters' \<noteq> []" using ne by (simp add: iters'_def)
    from py_min_cursors[OF ne' live'] obtain nextid' where pm': "py_min (map comp iters') = Inr nextid'"
      by blast
    note IH = "1.IH"[OF True refl pm'[unfolded iters'_def] ne'[unfolded iters'_def]
                     live'[unfolded iters'_def] pm'[unfolded iters'_def], folded iters'_def]
    have step: "zip_loop iters nextid =
        ((iters, nextid) # fst (zip_loop iters' nextid'), snd (zip_loop iters' nextid'))"
      unfolding iters'_def by (rule zip_loop_step[OF True pm'[unfolded iters'_def]])
    have keys: "pending_keys iters = insert nextid (pending_keys iters')"
      unfolding iters'_def by (rule pending_keys_step[OF live True c0])
    have "sum_list (map cursor_weight iters') < sum_list (map cursor_weight iters)"
      unfolding iters'_def using c0 True by (intro sum_weight_less) auto
    then have less: "sum_list (map (\<lambda>ci. length (pending ci)) iters') <
                     sum_list (map (\<lambda>ci. length (pending ci)) iters)"
      by (simp add: sum_pending_weight[OF live] sum_pending_weight[OF live'])
    have len: "length iters' = length iters" by (simp add: iters'_def)
    from IH keys less len show ?thesis unfolding step by auto
  qed
qed


subsection \<open>The loop on strictly ascending streams\<close>

lemma zip_loop_correct:
  assumes "iters \<noteq> []" and "\<forall>ci\<in>set iters. cursor_ok ci" and "py_min (map comp iters) = Inr nextid"
  shows "map (\<lambda>st. (snd st, read_tuple st)) (fst (zip_loop iters nextid)) =
           map (\<lambda>k. (k, map (\<lambda>ci. record_at k (pending ci)) iters))
               (sorted_list_of_set (pending_keys iters))"
  using assms
proof (induction iters nextid rule: zip_loop.induct)
  case (1 iters nextid)
  note ne = "1.prems"(1) and ok = "1.prems"(2) and pm = "1.prems"(3)
  have live: "\<forall>ci\<in>set iters. cursor_live ci" using ok by (simp add: cursor_ok_def)
  from py_min_unique[OF pm ne live]
  obtain c0 where c0: "c0 \<in> set iters" "comp c0 = Some nextid"
    and low: "\<And>ci c. ci \<in> set iters \<Longrightarrow> comp ci = Some c \<Longrightarrow> nextid \<le> c"
    by blast
  show ?case
  proof (cases "fst nextid < 100")
    case False
    from zip_loop_general[OF ne live pm] zip_loop_stop[OF False, of iters]
    have "pending_keys iters = {}" by simp
    then show ?thesis by (simp add: zip_loop_stop[OF False])
  next
    case True
    define iters' where "iters' = map (CompIter_next (Some nextid)) iters"
    have ok': "\<forall>ci\<in>set iters'. cursor_ok ci"
      using ok by (auto simp: iters'_def intro: cursor_ok_next)
    then have live': "\<forall>ci\<in>set iters'. cursor_live ci" by (simp add: cursor_ok_def)
    have ne': "iters' \<noteq> []" using ne by (simp add: iters'_def)
    from py_min_cursors[OF ne' live'] obtain nextid' where pm': "py_min (map comp iters') = Inr nextid'"
      by blast
    have fin: "finite (pending_keys iters)" by (simp add: pending_keys_def)
    have mem: "nextid \<in> pending_keys iters"
      using comp_in_pending[OF _ c0(2) True] live c0(1) by (auto simp: pending_keys_def)
    have least: "nextid \<le> k" if "k \<in> pending_keys iters" for k
    proof -
      from that obtain ci where ci: "ci \<in> set iters" "k \<in> okey ` set (pending ci)"
        by (auto simp: pending_keys_def)
      from live ci(1) obtain c where c: "comp ci = Some c" by (meson cursor_live_comp)
      from comp_le_pending[OF _ c ci(2)] ok ci(1) have "c \<le> k" by blast
      with low[OF ci(1) c] show ?thesis by simp
    qed
    have Min_eq: "Min (pending_keys iters) = nextid"
      using fin mem least by (intro Min_eqI) auto
    have keys': "pending_keys iters' = pending_keys iters - {nextid}"
    proof -
      have "okey ` set (pending (CompIter_next (Some nextid) ci)) = okey ` set (pending ci) - {nextid}"
        if "ci \<in> set iters" for ci
      proof -
        from live that obtain c where c: "comp ci = Some c" by (meson cursor_live_comp)
        from keys_next[OF _ c low[OF that c] True] ok that show ?thesis by blast
      qed
      then show ?thesis by (auto simp: pending_keys_def iters'_def)
    qed
    have sl: "sorted_list_of_set (pending_keys iters) = nextid # sorted_list_of_set (pending_keys iters')"
      using sorted_list_of_set_nonempty[OF fin] mem Min_eq keys' by auto
    have tuple: "read_tuple (iters, nextid) = map (\<lambda>ci. record_at nextid (pending ci)) iters"
      unfolding read_tuple_def fst_conv snd_conv
    proof (rule map_cong[OF refl])
      fix ci assume ci: "ci \<in> set iters"
      from live ci obtain c where c: "comp ci = Some c" by (meson cursor_live_comp)
      from val_record_at[OF _ c low[OF ci c] True] ok ci
      show "CompIter_val nextid ci = record_at nextid (pending ci)" by blast
    qed
    have rest: "map (\<lambda>k. (k, map (\<lambda>ci. record_at k (pending ci)) iters')) (sorted_list_of_set (pending_keys iters'))
              = map (\<lambda>k. (k, map (\<lambda>ci. record_at k (pending ci)) iters)) (sorted_list_of_set (pending_keys iters'))"
    proof (rule map_cong[OF refl])
      fix k assume "k \<in> set (sorted_list_of_set (pending_keys iters'))"
      then have "k \<noteq> nextid" using keys' fin by auto
      then have "record_at k (pending (CompIter_next (Some nextid) ci)) = record_at k (pending ci)"
        if "ci \<in> set iters" for ci
        using record_at_next[of ci k nextid] ok that True by blast
      then show "(k, map (\<lambda>ci. record_at k (pending ci)) iters') = (k, map (\<lambda>ci. record_at k (pending ci)) iters)"
        by (simp add: iters'_def comp_def)
    qed
    note IH = "1.IH"[OF True refl pm'[unfolded iters'_def] ne'[unfolded iters'_def]
                     ok'[unfolded iters'_def] pm'[unfolded iters'_def], folded iters'_def]
    have step: "zip_loop iters nextid =
        ((iters, nextid) # fst (zip_loop iters' nextid'), snd (zip_loop iters' nextid'))"
      unfolding iters'_def by (rule zip_loop_step[OF True pm'[unfolded iters'_def]])
    show ?thesis unfolding step by (simp add: IH tuple sl rest)
  qed
qed

lemma zip_processors_start:
  assumes "procs \<noteq> []"
  obtains nextid where
    "zip_processors procs = zip_loop (map (CompIter_next None) (map CompIter_init procs)) nextid"
    "py_min (map comp (map (CompIter_next None) (map CompIter_init procs))) = Inr nextid"
proof -
  let ?iters = "map (CompIter_next None) (map CompIter_init procs)"
  have ne: "?iters \<noteq> []" using assms by simp
  have live: "\<forall>ci\<in>set ?iters. cursor_live ci" by (auto intro: cursor_live_first)
  from py_min_cursors[OF ne live] obtain nextid where pm: "py_min (map comp ?iters) = Inr nextid"
    by blast
  have "zip_processors procs = zip_loop ?iters nextid"
    unfolding zip_processors_def Let_def pm by simp
  then show ?thesis using pm by (rule that)
qed

lemma pending_keys_start:
  "pending_keys (map (CompIter_next None) (map CompIter_init procs)) = all_keys procs"
  by (simp add: pending_keys_def all_keys_def pending_first)

lemma zip_processors_general:
  assumes "procs \<noteq> []"
  shows "(\<exists>fin. snd (zip_processors procs) = Stopped (fin, (100, 0)) \<and> length fin = length procs \<and>
             (\<forall>ci\<in>set fin. comp ci = Some (100, 0) \<and> current ci = None)) \<and>
         snd ` set (fst (zip_processors procs)) = all_keys procs \<and>
         length (fst (zip_processors procs)) \<le> sum_list (map length procs) \<and>
         (\<forall>st\<in>set (fst (zip_processors procs)). length (fst st) = length procs)"
proof -
  let ?iters = "map (CompIter_next None) (map CompIter_init procs)"
  from zip_processors_start[OF assms] obtain nextid where
    run: "zip_processors procs = zip_loop ?iters nextid" and pm: "py_min (map comp ?iters) = Inr nextid"
    by blast
  have ne: "?iters \<noteq> []" using assms by simp
  have live: "\<forall>ci\<in>set ?iters. cursor_live ci" by (auto intro: cursor_live_first)
  have s: "sum_list (map (\<lambda>ci. length (pending ci)) ?iters) = sum_list (map length procs)"
    by (simp add: o_def pending_first)
  from zip_loop_general[OF ne live pm] show ?thesis
    unfolding run[symmetric] pending_keys_start s by simp
qed

lemma zip_processors_strict:
  assumes "procs \<noteq> []" and "\<forall>p\<in>set procs. sorted_wrt (<) (map okey p)"
  shows "map (\<lambda>st. (snd st, read_tuple st)) (fst (zip_processors procs)) =
           map (\<lambda>k. (k, map (record_at k) procs)) (sorted_list_of_set (all_keys procs))"
proof -
  let ?iters = "map (CompIter_next None) (map CompIter_init procs)"
  from zip_processors_start[OF assms(1)] obtain nextid where
    run: "zip_processors procs = zip_loop ?iters nextid" and pm: "py_min (map comp ?iters) = Inr nextid"
    by blast
  have ne: "?iters \<noteq> []" using assms(1) by simp
  have ok: "\<forall>ci\<in>set ?iters. cursor_ok ci" using assms(2) by (auto intro: cursor_ok_first)
  have pr: "map (\<lambda>ci. record_at k (pending ci)) ?iters = map (record_at k) procs" for k
    by (simp add: o_def pending_first)
  from zip_loop_correct[OF ne ok pm] show ?thesis
    unfolding run[symmetric] pending_keys_start pr .
qed

lemma all_keys_below_eof: "k \<in> all_keys procs \<Longrightarrow> k < (100, 0)"
  by (auto simp: all_keys_def okey_less_eof)

lemma read_tuple_exhausted:
  "\<forall>ci\<in>set fin. comp ci = Some (100, 0) \<and> current ci = None \<Longrightarrow>
   read_tuple (fin, (100, 0)) = replicate (length fin) None"
  by (induction fin) (auto simp: read_tuple_def CompIter_val_def)


subsection \<open>The loop on sorted streams\<close>

text \<open>
  How often a key occurs in a stream, the largest number of occurrences of a key in one
  of the streams, and the sum of these numbers over the keys present: a key counts as
  often as the stream that repeats it most holds it.
\<close>

definition occurrences :: "key \<Rightarrow> osm_object list \<Rightarrow> nat" where
  "occurrences k p = length (filter (\<lambda>x. okey x = k) p)"

fun max_list :: "nat list \<Rightarrow> nat" where
  "max_list [] = 0"
| "max_list (n # ns) = max n (max_list ns)"

definition max_occurrences :: "key \<Rightarrow> osm_object list list \<Rightarrow> nat" where
  "max_occurrences k procs = max_list (map (occurrences k) procs)"

definition key_occurrences :: "osm_object list list \<Rightarrow> nat" where
  "key_occurrences procs = (\<Sum>k\<in>all_keys procs. max_occurrences k procs)"

lemma max_list_pred: "max_list (map (\<lambda>n. n - 1) ns) = max_list ns - 1"
  by (induction ns) auto

lemma max_list_ge: "n \<in> set ns \<Longrightarrow> n \<le> max_list ns"
  by (induction ns) auto

lemma max_list_zero: "\<forall>n\<in>set ns. n = 0 \<Longrightarrow> max_list ns = 0"
  by (induction ns) auto

lemma occurrences_absent: "k \<notin> okey ` set p \<Longrightarrow> occurrences k p = 0"
  by (auto simp: occurrences_def filter_empty_conv)

lemma occurrences_next_at:
  assumes l: "cursor_live ci" and s: "sorted (map okey (pending ci))"
    and c: "comp ci = Some c" and low: "k \<le> c" and k: "fst k < 100"
  shows "occurrences k (pending (CompIter_next (Some k) ci)) = occurrences k (pending ci) - 1"
proof (cases "c = k")
  case True
  with c have ck: "comp ci = Some k" by simp
  from comp_head[OF l ck k] obtain x xs where p: "pending ci = x # xs" "okey x = k" by blast
  with pending_next[OF l k] ck show ?thesis by (simp add: occurrences_def)
next
  case False
  with c have nk: "comp ci \<noteq> Some k" by simp
  with pending_next[OF l k] have same: "pending (CompIter_next (Some k) ci) = pending ci" by simp
  have "k \<notin> okey ` set (pending ci)"
  proof (cases "fst c < 100")
    case True
    from comp_head[OF l c True] obtain x xs where p: "pending ci = x # xs" "okey x = c" by blast
    with s have "\<forall>y\<in>set (pending ci). c \<le> okey y" by auto
    with low False show ?thesis by auto
  next
    case False
    from comp_eof[OF l c False] show ?thesis by simp
  qed
  then have "occurrences k (pending ci) = 0" by (rule occurrences_absent)
  with same show ?thesis by simp
qed

lemma occurrences_next_other:
  assumes l: "cursor_live ci" and k: "fst k < 100" and ne: "k' \<noteq> k"
  shows "occurrences k' (pending (CompIter_next (Some k) ci)) = occurrences k' (pending ci)"
proof (cases "comp ci = Some k")
  case True
  from comp_head[OF l True k] obtain x xs where p: "pending ci = x # xs" "okey x = k" by blast
  with pending_next[OF l k] True ne show ?thesis by (simp add: occurrences_def)
next
  case False
  with pending_next[OF l k] show ?thesis by simp
qed

lemma sorted_pending_next:
  "cursor_live ci \<Longrightarrow> fst k < 100 \<Longrightarrow> sorted (map okey (pending ci)) \<Longrightarrow>
   sorted (map okey (pending (CompIter_next (Some k) ci)))"
  by (cases "pending ci") (auto simp: pending_next)

lemma zip_loop_count:
  assumes "iters \<noteq> []" and "\<forall>ci\<in>set iters. cursor_live ci \<and> sorted (map okey (pending ci))"
    and "py_min (map comp iters) = Inr nextid"
    and "finite K" and "pending_keys iters \<subseteq> K"
  shows "length (fst (zip_loop iters nextid)) = (\<Sum>k\<in>K. max_occurrences k (map pending iters))"
  using assms
proof (induction iters nextid rule: zip_loop.induct)
  case (1 iters nextid)
  note ne = "1.prems"(1) and ok = "1.prems"(2) and pm = "1.prems"(3)
    and fin = "1.prems"(4) and sub = "1.prems"(5)
  have live: "\<forall>ci\<in>set iters. cursor_live ci" using ok by simp
  from py_min_unique[OF pm ne live]
  obtain c0 where c0: "c0 \<in> set iters" "comp c0 = Some nextid"
    and low: "\<And>ci c. ci \<in> set iters \<Longrightarrow> comp ci = Some c \<Longrightarrow> nextid \<le> c"
    by blast
  show ?case
  proof (cases "fst nextid < 100")
    case False
    from zip_loop_general[OF ne live pm] zip_loop_stop[OF False, of iters]
    have e: "pending_keys iters = {}" by simp
    have "max_occurrences k (map pending iters) = 0" for k
      unfolding max_occurrences_def
    proof (rule max_list_zero, rule ballI)
      fix n assume "n \<in> set (map (occurrences k) (map pending iters))"
      then obtain ci where ci: "ci \<in> set iters" "n = occurrences k (pending ci)" by auto
      from e ci(1) have "k \<notin> okey ` set (pending ci)" by (auto simp: pending_keys_def)
      with ci(2) show "n = 0" by (simp add: occurrences_absent)
    qed
    then show ?thesis by (simp add: zip_loop_stop[OF False])
  next
    case True
    define iters' where "iters' = map (CompIter_next (Some nextid)) iters"
    have ok': "\<forall>ci\<in>set iters'. cursor_live ci \<and> sorted (map okey (pending ci))"
      using ok True by (auto simp: iters'_def intro: cursor_live_next sorted_pending_next)
    then have live': "\<forall>ci\<in>set iters'. cursor_live ci" by simp
    have ne': "iters' \<noteq> []" using ne by (simp add: iters'_def)
    from py_min_cursors[OF ne' live'] obtain nextid' where pm': "py_min (map comp iters') = Inr nextid'"
      by blast
    have keys: "pending_keys iters = insert nextid (pending_keys iters')"
      unfolding iters'_def by (rule pending_keys_step[OF live True c0])
    with sub have sub': "pending_keys iters' \<subseteq> K" and mem: "nextid \<in> K" by auto
    note IH = "1.IH"[OF True refl pm'[unfolded iters'_def] ne'[unfolded iters'_def]
                     ok'[unfolded iters'_def] pm'[unfolded iters'_def] fin sub'[unfolded iters'_def],
                     folded iters'_def]
    have step: "zip_loop iters nextid =
        ((iters, nextid) # fst (zip_loop iters' nextid'), snd (zip_loop iters' nextid'))"
      unfolding iters'_def by (rule zip_loop_step[OF True pm'[unfolded iters'_def]])
    have at: "max_occurrences nextid (map pending iters') = max_occurrences nextid (map pending iters) - 1"
    proof -
      have el: "occurrences nextid (pending (CompIter_next (Some nextid) ci)) =
                occurrences nextid (pending ci) - 1" if ci: "ci \<in> set iters" for ci
      proof -
        from live ci obtain c where c: "comp ci = Some c" by (meson cursor_live_comp)
        from ok ci have l: "cursor_live ci" and s: "sorted (map okey (pending ci))" by auto
        from occurrences_next_at[OF l s c low[OF ci c] True] show ?thesis .
      qed
      have "map (occurrences nextid) (map pending iters') =
            map (\<lambda>n. n - 1) (map (occurrences nextid) (map pending iters))"
        using el by (simp add: iters'_def)
      then show ?thesis unfolding max_occurrences_def by (simp only: max_list_pred)
    qed
    have pos: "1 \<le> max_occurrences nextid (map pending iters)"
    proof -
      from live c0(1) have l0: "cursor_live c0" by blast
      from comp_head[OF l0 c0(2) True] obtain x xs where "pending c0 = x # xs" "okey x = nextid"
        by blast
      then have "1 \<le> occurrences nextid (pending c0)" by (simp add: occurrences_def)
      moreover have "occurrences nextid (pending c0) \<in> set (map (occurrences nextid) (map pending iters))"
        using c0(1) by auto
      ultimately have "1 \<le> max_list (map (occurrences nextid) (map pending iters))"
        using max_list_ge[of "occurrences nextid (pending c0)" "map (occurrences nextid) (map pending iters)"]
        by linarith
      then show ?thesis unfolding max_occurrences_def .
    qed
    have other: "max_occurrences k (map pending iters') = max_occurrences k (map pending iters)"
      if "k \<noteq> nextid" for k
    proof -
      have "occurrences k (pending (CompIter_next (Some nextid) ci)) = occurrences k (pending ci)"
        if "ci \<in> set iters" for ci
        using occurrences_next_other[OF _ True \<open>k \<noteq> nextid\<close>] live that by blast
      then have "map (occurrences k) (map pending iters') = map (occurrences k) (map pending iters)"
        by (simp add: iters'_def)
      then show ?thesis by (simp add: max_occurrences_def)
    qed
    have "(\<Sum>k\<in>K. max_occurrences k (map pending iters)) =
          max_occurrences nextid (map pending iters) +
          (\<Sum>k\<in>K - {nextid}. max_occurrences k (map pending iters))"
      by (rule sum.remove[OF fin mem])
    also have "(\<Sum>k\<in>K - {nextid}. max_occurrences k (map pending iters)) =
               (\<Sum>k\<in>K - {nextid}. max_occurrences k (map pending iters'))"
      by (rule sum.cong[OF refl]) (simp add: other)
    also have "max_occurrences nextid (map pending iters) = Suc (max_occurrences nextid (map pending iters'))"
      using at pos by simp
    finally have "(\<Sum>k\<in>K. max_occurrences k (map pending iters)) =
          Suc (max_occurrences nextid (map pending iters') +
               (\<Sum>k\<in>K - {nextid}. max_occurrences k (map pending iters')))"
      by simp
    also have "max_occurrences nextid (map pending iters') +
               (\<Sum>k\<in>K - {nextid}. max_occurrences k (map pending iters')) =
               (\<Sum>k\<in>K. max_occurrences k (map pending iters'))"
      by (rule sum.remove[OF fin mem, symmetric])
    finally show ?thesis unfolding step by (simp add: IH)
  qed
qed

lemma zip_processors_sorted_count:
  assumes "procs \<noteq> []" and "\<forall>p\<in>set procs. sorted (map okey p)"
  shows "length (fst (zip_processors procs)) = key_occurrences procs"
proof -
  let ?iters = "map (CompIter_next None) (map CompIter_init procs)"
  from zip_processors_start[OF assms(1)] obtain nextid where
    run: "zip_processors procs = zip_loop ?iters nextid" and pm: "py_min (map comp ?iters) = Inr nextid"
    by blast
  have ne: "?iters \<noteq> []" using assms(1) by simp
  have ok: "\<forall>ci\<in>set ?iters. cursor_live ci \<and> sorted (map okey (pending ci))"
    using assms(2) by (auto simp: pending_first intro: cursor_live_first)
  have fin: "finite (all_keys procs)" by (simp add: all_keys_def)
  have sub: "pending_keys ?iters \<subseteq> all_keys procs" unfolding pending_keys_start by (rule subset_refl)
  have pr: "map pending ?iters = procs" by (simp add: o_def pending_first)
  from zip_loop_count[OF ne ok pm fin sub] show ?thesis
    unfolding run[symmetric] pr key_occurrences_def .
qed


subsection \<open>Claims about the merge\<close>

text \<open>
  Claim C1, as stated: it fails in two ways. A stream that is sorted but holds a key
  twice (two versions of node 1) has one distinct key and gives two tuples. And what is
  yielded is a lazy expression over the generator's state: for two strictly ascending
  streams, a caller that collects the yielded expressions and consumes them after the
  generator has finished finds \<open>None\<close> in every slot, where the aligned output has records.
\<close>

theorem zip_processors_tuples_counterexample:
  "sorted (map okey [\<lparr>type_str = Node, obj_id = 1, payload = 0\<rparr>, \<lparr>type_str = Node, obj_id = 1, payload = 1\<rparr>]) \<and>
   all_keys [[\<lparr>type_str = Node, obj_id = 1, payload = 0\<rparr>, \<lparr>type_str = Node, obj_id = 1, payload = 1\<rparr>]] = {(0, 1)} \<and>
   tuples_read_at_yield [[\<lparr>type_str = Node, obj_id = 1, payload = 0\<rparr>, \<lparr>type_str = Node, obj_id = 1, payload = 1\<rparr>]] =
     [[Some \<lparr>type_str = Node, obj_id = 1, payload = 0\<rparr>], [Some \<lparr>type_str = Node, obj_id = 1, payload = 1\<rparr>]] \<and>
   sorted_wrt (<) (map okey [\<lparr>type_str = Node, obj_id = 1, payload = 10\<rparr>, \<lparr>type_str = Node, obj_id = 3, payload = 11\<rparr>]) \<and>
   sorted_wrt (<) (map okey [\<lparr>type_str = Node, obj_id = 2, payload = 20\<rparr>, \<lparr>type_str = Node, obj_id = 3, payload = 21\<rparr>]) \<and>
   tuples_read_after
     [[\<lparr>type_str = Node, obj_id = 1, payload = 10\<rparr>, \<lparr>type_str = Node, obj_id = 3, payload = 11\<rparr>],
      [\<lparr>type_str = Node, obj_id = 2, payload = 20\<rparr>, \<lparr>type_str = Node, obj_id = 3, payload = 21\<rparr>]] =
     [[None, None], [None, None], [None, None]] \<and>
   aligned_tuples
     [[\<lparr>type_str = Node, obj_id = 1, payload = 10\<rparr>, \<lparr>type_str = Node, obj_id = 3, payload = 11\<rparr>],
      [\<lparr>type_str = Node, obj_id = 2, payload = 20\<rparr>, \<lparr>type_str = Node, obj_id = 3, payload = 21\<rparr>]] =
     [[Some \<lparr>type_str = Node, obj_id = 1, payload = 10\<rparr>, None],
      [None, Some \<lparr>type_str = Node, obj_id = 2, payload = 20\<rparr>],
      [Some \<lparr>type_str = Node, obj_id = 3, payload = 11\<rparr>, Some \<lparr>type_str = Node, obj_id = 3, payload = 21\<rparr>]]"
  by code_simp

text \<open>
  Claim C1, amended: for \<open>N \<ge> 1\<close> streams, each strictly ascending by composite key
  (no key occurs twice in one stream), \<open>zip_processors\<close> yields once per distinct key
  present in any stream, in ascending key order, and every yielded expression has \<open>N\<close>
  slots. When the caller consumes each yielded expression before it resumes the
  generator, slot \<open>i\<close> of the tuple for key \<open>k\<close> is stream \<open>i\<close>'s record with key \<open>k\<close>
  when the stream has one, and \<open>None\<close> otherwise. Consumed after the generator has
  finished, every slot of every yielded expression is \<open>None\<close>.
\<close>

theorem zip_processors_aligned:
  assumes "procs \<noteq> []" and "\<forall>p\<in>set procs. sorted_wrt (<) (map okey p)"
  shows "tuples_read_at_yield procs = aligned_tuples procs \<and>
         map snd (fst (zip_processors procs)) = sorted_list_of_set (all_keys procs) \<and>
         (\<forall>st\<in>set (fst (zip_processors procs)). length (read_tuple st) = length procs) \<and>
         tuples_read_after procs = replicate (card (all_keys procs)) (replicate (length procs) None)"
proof -
  note strict = zip_processors_strict[OF assms]
  from arg_cong[OF strict, of "map snd"]
  have a: "tuples_read_at_yield procs = aligned_tuples procs"
    by (simp add: tuples_read_at_yield_def aligned_tuples_def o_def)
  from arg_cong[OF strict, of "map fst"]
  have b: "map snd (fst (zip_processors procs)) = sorted_list_of_set (all_keys procs)"
    by (simp add: o_def)
  from zip_processors_general[OF assms(1)] obtain fin where
    fin: "snd (zip_processors procs) = Stopped (fin, (100, 0))" "length fin = length procs"
      "\<forall>ci\<in>set fin. comp ci = Some (100, 0) \<and> current ci = None"
    and len: "\<forall>st\<in>set (fst (zip_processors procs)). length (fst st) = length procs"
    by blast
  have c: "\<forall>st\<in>set (fst (zip_processors procs)). length (read_tuple st) = length procs"
    using len by (simp add: read_tuple_def)
  have n: "length (fst (zip_processors procs)) = card (all_keys procs)"
  proof -
    have "finite (all_keys procs)" by (simp add: all_keys_def)
    then have "length (sorted_list_of_set (all_keys procs)) = card (all_keys procs)" by simp
    with arg_cong[OF b, of length] show ?thesis by simp
  qed
  have d: "tuples_read_after procs = replicate (card (all_keys procs)) (replicate (length procs) None)"
    using fin n read_tuple_exhausted[OF fin(3)]
    by (simp add: tuples_read_after_def map_replicate_const)
  from a b c d show ?thesis by blast
qed

theorem zip_processors_aligned_witness:
  "[[\<lparr>type_str = Node, obj_id = 1, payload = 10\<rparr>, \<lparr>type_str = Node, obj_id = 3, payload = 11\<rparr>],
    [\<lparr>type_str = Node, obj_id = 2, payload = 20\<rparr>, \<lparr>type_str = Node, obj_id = 3, payload = 21\<rparr>]] \<noteq> [] \<and>
   sorted_wrt (<) (map okey [\<lparr>type_str = Node, obj_id = 1, payload = 10\<rparr>, \<lparr>type_str = Node, obj_id = 3, payload = 11\<rparr>]) \<and>
   sorted_wrt (<) (map okey [\<lparr>type_str = Node, obj_id = 2, payload = 20\<rparr>, \<lparr>type_str = Node, obj_id = 3, payload = 21\<rparr>]) \<and>
   tuples_read_at_yield
     [[\<lparr>type_str = Node, obj_id = 1, payload = 10\<rparr>, \<lparr>type_str = Node, obj_id = 3, payload = 11\<rparr>],
      [\<lparr>type_str = Node, obj_id = 2, payload = 20\<rparr>, \<lparr>type_str = Node, obj_id = 3, payload = 21\<rparr>]] =
   [[Some \<lparr>type_str = Node, obj_id = 1, payload = 10\<rparr>, None],
    [None, Some \<lparr>type_str = Node, obj_id = 2, payload = 20\<rparr>],
    [Some \<lparr>type_str = Node, obj_id = 3, payload = 11\<rparr>, Some \<lparr>type_str = Node, obj_id = 3, payload = 21\<rparr>]] \<and>
   map snd (fst (zip_processors
     [[\<lparr>type_str = Node, obj_id = 1, payload = 10\<rparr>, \<lparr>type_str = Node, obj_id = 3, payload = 11\<rparr>],
      [\<lparr>type_str = Node, obj_id = 2, payload = 20\<rparr>, \<lparr>type_str = Node, obj_id = 3, payload = 21\<rparr>]])) =
   [(0, 1), (0, 2), (0, 3)]"
proof -
  let ?A = "[\<lparr>type_str = Node, obj_id = 1, payload = 10\<rparr>, \<lparr>type_str = Node, obj_id = 3, payload = 11\<rparr>]"
  let ?B = "[\<lparr>type_str = Node, obj_id = 2, payload = 20\<rparr>, \<lparr>type_str = Node, obj_id = 3, payload = 21\<rparr>]"
  have h1: "[?A, ?B] \<noteq> []" by simp
  have h2: "\<forall>p\<in>set [?A, ?B]. sorted_wrt (<) (map okey p)" by (simp add: okey_def)
  have sp: "aligned_tuples [?A, ?B] =
     [[Some \<lparr>type_str = Node, obj_id = 1, payload = 10\<rparr>, None],
      [None, Some \<lparr>type_str = Node, obj_id = 2, payload = 20\<rparr>],
      [Some \<lparr>type_str = Node, obj_id = 3, payload = 11\<rparr>, Some \<lparr>type_str = Node, obj_id = 3, payload = 21\<rparr>]]"
    by code_simp
  have ks: "sorted_list_of_set (all_keys [?A, ?B]) = [(0, 1), (0, 2), (0, 3)]" by code_simp
  show ?thesis using h1 h2 zip_processors_aligned[OF h1 h2] sp ks by simp
qed

text \<open>
  Claim C3: \<open>zip_processors()\<close> with no stream. The first \<open>min\<close> has no argument, so the
  generator raises \<open>ValueError\<close> when it is first resumed; it yields nothing.
\<close>

theorem zip_processors_no_streams: "zip_processors [] = ([], Raised ValueError)"
  by (simp add: zip_processors_def)

text \<open>
  Claim C4, as stated, for sorted streams where a key may repeat: the number of yields
  is not the number of distinct keys. Two sorted streams with the single key \<open>(0, 1)\<close>,
  one of them holding it twice, give two yields.
\<close>

theorem zip_processors_yield_count_counterexample:
  "sorted (map okey [\<lparr>type_str = Node, obj_id = 1, payload = 0\<rparr>, \<lparr>type_str = Node, obj_id = 1, payload = 1\<rparr>]) \<and>
   sorted (map okey [\<lparr>type_str = Node, obj_id = 1, payload = 2\<rparr>]) \<and>
   card (all_keys [[\<lparr>type_str = Node, obj_id = 1, payload = 0\<rparr>, \<lparr>type_str = Node, obj_id = 1, payload = 1\<rparr>],
                   [\<lparr>type_str = Node, obj_id = 1, payload = 2\<rparr>]]) = 1 \<and>
   length (fst (zip_processors
                  [[\<lparr>type_str = Node, obj_id = 1, payload = 0\<rparr>, \<lparr>type_str = Node, obj_id = 1, payload = 1\<rparr>],
                   [\<lparr>type_str = Node, obj_id = 1, payload = 2\<rparr>]])) = 2"
  by code_simp

text \<open>
  Claim C4, amended: for \<open>N \<ge> 1\<close> finite streams, sorted or not, the generator ends
  through its \<open>while\<close> test, with \<open>nextid\<close> equal to the end of file marker and every
  cursor at that marker. Every yield happens at the key of a record, and every such key
  is strictly below the marker, so the test never fails at one. Every key of a record
  gets a yield: the number of yields is at least the number of distinct keys and at most
  the number of records. When every stream is sorted, a key gets as many yields as the
  stream that repeats it most holds it. When every stream is strictly ascending, the
  yields happen at the distinct keys in ascending order, and their number is the number
  of distinct keys.
\<close>

theorem zip_processors_terminates:
  assumes "procs \<noteq> []"
  shows "(\<exists>fin. snd (zip_processors procs) = Stopped (fin, eof_marker) \<and>
             (\<forall>ci\<in>set fin. comp ci = Some eof_marker)) \<and>
         (\<forall>st\<in>set (fst (zip_processors procs)). snd st \<in> all_keys procs \<and> snd st < eof_marker) \<and>
         (\<forall>k\<in>all_keys procs. k < eof_marker \<and> k \<in> snd ` set (fst (zip_processors procs))) \<and>
         card (all_keys procs) \<le> length (fst (zip_processors procs)) \<and>
         length (fst (zip_processors procs)) \<le> sum_list (map length procs) \<and>
         ((\<forall>p\<in>set procs. sorted (map okey p)) \<longrightarrow>
            length (fst (zip_processors procs)) = key_occurrences procs) \<and>
         ((\<forall>p\<in>set procs. sorted_wrt (<) (map okey p)) \<longrightarrow>
            map snd (fst (zip_processors procs)) = sorted_list_of_set (all_keys procs) \<and>
            length (fst (zip_processors procs)) = card (all_keys procs))"
proof -
  from zip_processors_general[OF assms] obtain fin where
    fin: "snd (zip_processors procs) = Stopped (fin, (100, 0))"
      "\<forall>ci\<in>set fin. comp ci = Some (100, 0) \<and> current ci = None"
    and keys: "snd ` set (fst (zip_processors procs)) = all_keys procs"
    and upper: "length (fst (zip_processors procs)) \<le> sum_list (map length procs)"
    by blast
  have a: "\<exists>fin. snd (zip_processors procs) = Stopped (fin, eof_marker) \<and>
             (\<forall>ci\<in>set fin. comp ci = Some eof_marker)"
    using fin by (auto simp: eof_marker_def)
  have b: "\<forall>st\<in>set (fst (zip_processors procs)). snd st \<in> all_keys procs \<and> snd st < eof_marker"
  proof
    fix st assume "st \<in> set (fst (zip_processors procs))"
    then have "snd st \<in> all_keys procs" unfolding keys[symmetric] by (rule imageI)
    with all_keys_below_eof[of "snd st" procs]
    show "snd st \<in> all_keys procs \<and> snd st < eof_marker" unfolding eof_marker_def by simp
  qed
  have c: "\<forall>k\<in>all_keys procs. k < eof_marker \<and> k \<in> snd ` set (fst (zip_processors procs))"
    unfolding keys eof_marker_def using all_keys_below_eof[of _ procs] by simp
  have "card (all_keys procs) \<le> card (set (fst (zip_processors procs)))"
    unfolding keys[symmetric] by (rule card_image_le) simp
  also have "\<dots> \<le> length (fst (zip_processors procs))" by (rule card_length)
  finally have d: "card (all_keys procs) \<le> length (fst (zip_processors procs))" .
  have e: "map snd (fst (zip_processors procs)) = sorted_list_of_set (all_keys procs) \<and>
           length (fst (zip_processors procs)) = card (all_keys procs)"
    if s: "\<forall>p\<in>set procs. sorted_wrt (<) (map okey p)"
  proof -
    from arg_cong[OF zip_processors_strict[OF assms s], of "map fst"]
    have m: "map snd (fst (zip_processors procs)) = sorted_list_of_set (all_keys procs)"
      by (simp add: o_def)
    have "finite (all_keys procs)" by (simp add: all_keys_def)
    then have "length (sorted_list_of_set (all_keys procs)) = card (all_keys procs)" by simp
    with arg_cong[OF m, of length]
    have "length (fst (zip_processors procs)) = card (all_keys procs)" by simp
    with m show ?thesis by (rule conjI)
  qed
  have f: "(\<forall>p\<in>set procs. sorted (map okey p)) \<longrightarrow>
           length (fst (zip_processors procs)) = key_occurrences procs"
    using zip_processors_sorted_count[OF assms] by blast
  from a b c d upper e f show ?thesis by blast
qed

theorem zip_processors_terminates_witness:
  "[[\<lparr>type_str = Node, obj_id = 1, payload = 0\<rparr>, \<lparr>type_str = Node, obj_id = 1, payload = 1\<rparr>],
    [\<lparr>type_str = Node, obj_id = 1, payload = 2\<rparr>]] \<noteq> [] \<and>
   (\<exists>fin. snd (zip_processors
      [[\<lparr>type_str = Node, obj_id = 1, payload = 0\<rparr>, \<lparr>type_str = Node, obj_id = 1, payload = 1\<rparr>],
       [\<lparr>type_str = Node, obj_id = 1, payload = 2\<rparr>]]) = Stopped (fin, eof_marker)) \<and>
   card (all_keys
      [[\<lparr>type_str = Node, obj_id = 1, payload = 0\<rparr>, \<lparr>type_str = Node, obj_id = 1, payload = 1\<rparr>],
       [\<lparr>type_str = Node, obj_id = 1, payload = 2\<rparr>]]) \<le> 2 \<and>
   sorted (map okey [\<lparr>type_str = Node, obj_id = 1, payload = 0\<rparr>, \<lparr>type_str = Node, obj_id = 1, payload = 1\<rparr>]) \<and>
   sorted (map okey [\<lparr>type_str = Node, obj_id = 1, payload = 2\<rparr>]) \<and>
   length (fst (zip_processors
      [[\<lparr>type_str = Node, obj_id = 1, payload = 0\<rparr>, \<lparr>type_str = Node, obj_id = 1, payload = 1\<rparr>],
       [\<lparr>type_str = Node, obj_id = 1, payload = 2\<rparr>]])) = 2 \<and>
   [[\<lparr>type_str = Node, obj_id = 5, payload = 0\<rparr>, \<lparr>type_str = Way, obj_id = 2, payload = 0\<rparr>],
    [\<lparr>type_str = Way, obj_id = 2, payload = 1\<rparr>]] \<noteq> [] \<and>
   sorted_wrt (<) (map okey [\<lparr>type_str = Node, obj_id = 5, payload = 0\<rparr>, \<lparr>type_str = Way, obj_id = 2, payload = 0\<rparr>]) \<and>
   sorted_wrt (<) (map okey [\<lparr>type_str = Way, obj_id = 2, payload = 1\<rparr>]) \<and>
   map snd (fst (zip_processors
          [[\<lparr>type_str = Node, obj_id = 5, payload = 0\<rparr>, \<lparr>type_str = Way, obj_id = 2, payload = 0\<rparr>],
           [\<lparr>type_str = Way, obj_id = 2, payload = 1\<rparr>]])) = [(0, 5), (1, 2)] \<and>
   length (fst (zip_processors
          [[\<lparr>type_str = Node, obj_id = 5, payload = 0\<rparr>, \<lparr>type_str = Way, obj_id = 2, payload = 0\<rparr>],
           [\<lparr>type_str = Way, obj_id = 2, payload = 1\<rparr>]])) = 2"
proof -
  let ?D = "[[\<lparr>type_str = Node, obj_id = 1, payload = 0\<rparr>, \<lparr>type_str = Node, obj_id = 1, payload = 1\<rparr>],
             [\<lparr>type_str = Node, obj_id = 1, payload = 2\<rparr>]]"
  let ?A = "[\<lparr>type_str = Node, obj_id = 5, payload = 0\<rparr>, \<lparr>type_str = Way, obj_id = 2, payload = 0\<rparr>]"
  let ?B = "[\<lparr>type_str = Way, obj_id = 2, payload = 1\<rparr>]"
  have d1: "?D \<noteq> []" by simp
  have d2: "\<forall>p\<in>set ?D. sorted (map okey p)" by (simp add: okey_def)
  have ko: "key_occurrences ?D = 2" by code_simp
  from zip_processors_terminates[OF d1]
  have t1: "\<exists>fin. snd (zip_processors ?D) = Stopped (fin, eof_marker)"
    and t2: "card (all_keys ?D) \<le> length (fst (zip_processors ?D))"
    by blast+
  from zip_processors_terminates[OF d1] d2
  have "length (fst (zip_processors ?D)) = key_occurrences ?D" by blast
  then have dl: "length (fst (zip_processors ?D)) = 2" unfolding ko .
  have s3: "sorted (map okey [\<lparr>type_str = Node, obj_id = 1, payload = 0\<rparr>, \<lparr>type_str = Node, obj_id = 1, payload = 1\<rparr>])"
    and s4: "sorted (map okey [\<lparr>type_str = Node, obj_id = 1, payload = 2\<rparr>])"
    by (simp_all add: okey_def)
  have h1: "[?A, ?B] \<noteq> []" by simp
  have h2: "\<forall>p\<in>set [?A, ?B]. sorted_wrt (<) (map okey p)" by (simp add: okey_def)
  have ks: "sorted_list_of_set (all_keys [?A, ?B]) = [(0, 5), (1, 2)]" by code_simp
  have c: "card (all_keys [?A, ?B]) = 2" by code_simp
  from zip_processors_terminates[OF h1] h2
  have t3: "map snd (fst (zip_processors [?A, ?B])) = sorted_list_of_set (all_keys [?A, ?B])"
    and t4: "length (fst (zip_processors [?A, ?B])) = card (all_keys [?A, ?B])"
    by blast+
  have s1: "sorted_wrt (<) (map okey ?A)" and s2: "sorted_wrt (<) (map okey ?B)"
    by (simp_all add: okey_def)
  show ?thesis
    by (intro conjI d1 t1 t2[unfolded dl] s3 s4 dl h1 s1 s2 t3[unfolded ks] t4[unfolded c])
qed


section \<open>The stream processor: \<open>FileProcessor\<close>\<close>

subsection \<open>Collaborators outside the module\<close>

text \<open>
  Modelled from the spec: the entity mask (\<open>osmium.osm.osm_entity_bits\<close>, declared outside
  this module) is a set of record-type flags; \<open>a & b\<close> is the intersection and a mask is
  true when it is not empty. \<open>osm.ALL\<close> holds every type, \<open>osm.NODE\<close> and \<open>osm.RELATION\<close>
  one each.
\<close>

type_synonym entity_bits = "otype set"

definition osm_ALL :: entity_bits where
  "osm_ALL = {Node, Way, Relation, Area, Changeset}"

definition osm_NODE :: entity_bits where
  "osm_NODE = {Node}"

definition osm_RELATION :: entity_bits where
  "osm_RELATION = {Relation}"

text \<open>
  Modelled from the spec: a data file is the sequence of entries stored in it. An entry
  is a record, or a damaged place where a record of some type should be. A reader
  (\<open>osmium.io.Reader\<close>) is forward-only and restricted to the requested entity mask: it
  sees the entries whose type is in the mask, in file order, and passes over the others.
  It emits the records it sees up to the first damaged entry it sees, and raises when it
  gets there. \<open>unread\<close> is what the reader has still to emit, \<open>fails\<close> the code of the
  exception it raises after that, if any.
\<close>

datatype entry = Rec osm_object | Damaged otype nat

fun entry_type :: "entry \<Rightarrow> otype" where
  "entry_type (Rec x) = type_str x"
| "entry_type (Damaged t code) = t"

type_synonym osm_file = "entry list"

fun readable :: "entry list \<Rightarrow> osm_object list" where
  "readable [] = []"
| "readable (Rec x # es) = x # readable es"
| "readable (Damaged t code # es) = []"

fun failure :: "entry list \<Rightarrow> nat option" where
  "failure [] = None"
| "failure (Rec x # es) = failure es"
| "failure (Damaged t code # es) = Some code"

record Reader =
  unread :: "osm_object list"
  fails :: "nat option"
  closed :: bool

definition Reader_open :: "osm_file \<Rightarrow> entity_bits \<Rightarrow> Reader" where
  "Reader_open f entities =
     (let seen = filter (\<lambda>e. {entry_type e} \<inter> entities \<noteq> {}) f
      in \<lparr>unread = readable seen, fails = failure seen, closed = False\<rparr>)"

definition Reader_close :: "Reader \<Rightarrow> Reader" where
  "Reader_close rd = rd\<lparr>closed := True\<rparr>"

text \<open>
  The services the module calls and does not define: opening a file by name, which
  fails for a name that cannot be opened; the index factory \<open>osmium.index.create_map\<close>,
  which fails on an unknown name; the node location handler \<open>NodeLocationsForWays\<close> (it
  stores what a record contributes to the location table and annotates the record from
  the table; with \<open>ignore_errors\<close> it never raises); and the area manager with its first
  pass intake and its second pass stage, which produces assembled area records, either
  of which can raise on a record, and what the second pass stage still produces when the
  stream ends. \<open>'c\<close> is the location table, \<open>'m\<close> the state of the area manager. A
  failure is the code of the exception, raised as \<open>ExternalError\<close>.
\<close>

record ('c, 'm) services =
  open_file :: "string \<Rightarrow> nat + osm_file"
  create_map :: "string \<Rightarrow> nat + 'c"
  store_location :: "'c \<Rightarrow> osm_object \<Rightarrow> 'c"
  resolve :: "'c \<Rightarrow> osm_object \<Rightarrow> osm_object"
  AreaManager :: "'m"
  first_pass :: "'m \<Rightarrow> osm_object \<Rightarrow> nat + 'm"
  second_pass :: "'m \<Rightarrow> osm_object \<Rightarrow> nat + 'm \<times> osm_object list"
  flush :: "'m \<Rightarrow> 'm \<times> osm_object list"

subsection \<open>Configuration\<close>

text \<open>
  What a handler does with a record: it passes it on, possibly transformed, it vetoes
  it, or it raises. A filter stage is a handler supplied by the user; the exception it
  raises is, for this module, one from outside, named by a code.
\<close>

datatype 'a verdict = Pass 'a | Veto | Raise nat

type_synonym filter_stage = "osm_object \<Rightarrow> osm_object verdict"

record ('c, 'm) FileProcessor =
  fp_file :: osm_file
  reader :: Reader
  entities :: entity_bits
  node_store :: "'c option"
  area_handler :: "'m option"
  filters :: "filter_stage list"

text \<open>
  The argument \<open>filename\<close> of the constructor, by its dynamic type: an \<open>osmium.io.File\<close>
  names a file, an \<open>osmium.io.FileBuffer\<close> holds the data. Line 23 opens the reader and
  raises when the named file cannot be opened.
\<close>

datatype filename = File string | FileBuffer osm_file | Str string | Path string | OtherFile

definition FileProcessor_new :: "osm_file \<Rightarrow> entity_bits \<Rightarrow> ('c, 'm) FileProcessor" where
  "FileProcessor_new f ents =
     \<lparr>fp_file = f, reader = Reader_open f ents, entities = ents,
      node_store = None, area_handler = None, filters = []\<rparr>"

definition FileProcessor_named ::
  "('c, 'm) services \<Rightarrow> string \<Rightarrow> entity_bits \<Rightarrow> error + ('c, 'm) FileProcessor" where
  "FileProcessor_named sv name ents =
     (case open_file sv name of
        Inl code \<Rightarrow> Inl (ExternalError code)
      | Inr f \<Rightarrow> Inr (FileProcessor_new f ents))"

definition FileProcessor_init ::
  "('c, 'm) services \<Rightarrow> filename \<Rightarrow> entity_bits \<Rightarrow> error + ('c, 'm) FileProcessor" where
  "FileProcessor_init sv fname ents =
     (case fname of
        File name \<Rightarrow> FileProcessor_named sv name ents
      | FileBuffer f \<Rightarrow> Inr (FileProcessor_new f ents)
      | Str name \<Rightarrow> FileProcessor_named sv name ents
      | Path name \<Rightarrow> FileProcessor_named sv name ents
      | OtherFile \<Rightarrow> Inl TypeError)"

text \<open>The argument \<open>storage\<close> of \<open>with_locations\<close>, by its dynamic type.\<close>

datatype 'c storage = StorageStr string | StorageNone | LocationTable 'c | OtherStorage

text \<open>
  A configuration method mutates the processor and returns it, or raises. The model
  returns the exception, if any, and the processor as the call leaves it.
\<close>

definition with_locations ::
  "('c, 'm) services \<Rightarrow> 'c storage \<Rightarrow> ('c, 'm) FileProcessor \<Rightarrow> error option \<times> ('c, 'm) FileProcessor" where
  "with_locations sv storage self =
     (if entities self \<inter> osm_NODE = {} then (Some RuntimeError, self)
      else case storage of
             StorageStr name \<Rightarrow>
               (case create_map sv name of
                  Inl code \<Rightarrow> (Some (ExternalError code), self)
                | Inr table \<Rightarrow> (None, self\<lparr>node_store := Some table\<rparr>))
           | StorageNone \<Rightarrow> (None, self\<lparr>node_store := None\<rparr>)
           | LocationTable table \<Rightarrow> (None, self\<lparr>node_store := Some table\<rparr>)
           | OtherStorage \<Rightarrow> (Some TypeError, self))"

definition with_areas ::
  "('c, 'm) services \<Rightarrow> ('c, 'm) FileProcessor \<Rightarrow> error option \<times> ('c, 'm) FileProcessor" where
  "with_areas sv self =
     (if area_handler self = None then
        (let self1 = self\<lparr>area_handler := Some (AreaManager sv)\<rparr>
         in if node_store self1 = None then with_locations sv (StorageStr ''flex_mem'') self1
            else (None, self1))
      else (None, self))"

definition with_filter :: "filter_stage \<Rightarrow> ('c, 'm) FileProcessor \<Rightarrow> ('c, 'm) FileProcessor" where
  "with_filter filt self = self\<lparr>filters := filters self @ [filt]\<rparr>"

subsection \<open>Handler chains\<close>

text \<open>
  The handlers \<open>__iter__\<close> puts into a chain: the node location handler, the two stages
  of the area manager, and the user's filters.
\<close>

datatype stage = NodeLocationsForWays | FirstPassHandler | SecondPassToBuffer | Filter filter_stage

text \<open>
  What the handlers of one iteration work on: the location table (the object
  \<open>_node_store\<close> refers to), the area manager (\<open>_area_handler\<close>) and the buffer of
  \<open>buffer_it\<close>, the staging buffer for assembled areas.
\<close>

record ('c, 'm) pipeline =
  cache :: "'c option"
  manager :: "'m option"
  buffer :: "osm_object list"

text \<open>
  Modelled from the spec: what one stage does with one record. The location handler
  records the record in the table and annotates it; the first pass intake consumes it;
  the second pass stage consumes it and pushes zero or more assembled areas into the
  staging buffer; a filter vetoes it or passes it on. Only a filter can veto. A stage of
  the area manager that raises leaves the manager and the buffer as they were.
\<close>

fun apply_stage ::
  "('c, 'm) services \<Rightarrow> stage \<Rightarrow> ('c, 'm) pipeline \<Rightarrow> osm_object \<Rightarrow>
   ('c, 'm) pipeline \<times> osm_object verdict" where
  "apply_stage sv NodeLocationsForWays st x =
     (case cache st of
        None \<Rightarrow> (st, Pass x)
      | Some c \<Rightarrow> (st\<lparr>cache := Some (store_location sv c x)\<rparr>,
                   Pass (resolve sv (store_location sv c x) x)))"
| "apply_stage sv FirstPassHandler st x =
     (case manager st of
        None \<Rightarrow> (st, Pass x)
      | Some m \<Rightarrow>
          (case first_pass sv m x of
             Inl code \<Rightarrow> (st, Raise code)
           | Inr m' \<Rightarrow> (st\<lparr>manager := Some m'\<rparr>, Pass x)))"
| "apply_stage sv SecondPassToBuffer st x =
     (case manager st of
        None \<Rightarrow> (st, Pass x)
      | Some m \<Rightarrow>
          (case second_pass sv m x of
             Inl code \<Rightarrow> (st, Raise code)
           | Inr (m', areas) \<Rightarrow> (st\<lparr>manager := Some m', buffer := buffer st @ areas\<rparr>, Pass x)))"
| "apply_stage sv (Filter filt) st x = (st, filt x)"

text \<open>
  Modelled from the spec: a record passes the stages in the order they were given; a veto
  or an exception ends the chain for that record, so later stages do not see it.
\<close>

fun run_stages ::
  "('c, 'm) services \<Rightarrow> stage list \<Rightarrow> ('c, 'm) pipeline \<Rightarrow> osm_object \<Rightarrow>
   ('c, 'm) pipeline \<times> osm_object verdict" where
  "run_stages sv [] st x = (st, Pass x)"
| "run_stages sv (s # ss) st x =
     (case apply_stage sv s st x of
        (st', Pass x') \<Rightarrow> run_stages sv ss st' x'
      | (st', Veto) \<Rightarrow> (st', Veto)
      | (st', Raise code) \<Rightarrow> (st', Raise code))"

text \<open>
  Modelled from the spec: \<open>osmium.apply(reader, *handlers)\<close> runs the records of the
  reader through the chain, one after the other, and returns nothing. An exception of a
  stage ends it at that record. The result is the pipeline, the code of the exception of
  a stage, if any, and the records the reader has not emitted.
\<close>

fun osmium_apply ::
  "('c, 'm) services \<Rightarrow> stage list \<Rightarrow> ('c, 'm) pipeline \<Rightarrow> osm_object list \<Rightarrow>
   ('c, 'm) pipeline \<times> nat option \<times> osm_object list" where
  "osmium_apply sv stages st [] = (st, None, [])"
| "osmium_apply sv stages st (x # xs) =
     (case run_stages sv stages st x of
        (st1, Raise code) \<Rightarrow> (st1, Some code, xs)
      | (st1, Veto) \<Rightarrow> osmium_apply sv stages st1 xs
      | (st1, Pass y) \<Rightarrow> osmium_apply sv stages st1 xs)"

text \<open>
  Modelled from the spec: \<open>osmium.OsmFileIterator(reader, *handlers)\<close> runs the records
  of the reader through the chain and yields the records no stage vetoed, as the chain
  leaves them. The result is what it yielded, the pipeline, the code of the exception of
  a stage, if any, and the records the reader has not emitted.
\<close>

fun OsmFileIterator ::
  "('c, 'm) services \<Rightarrow> stage list \<Rightarrow> ('c, 'm) pipeline \<Rightarrow> osm_object list \<Rightarrow>
   osm_object list \<times> ('c, 'm) pipeline \<times> nat option \<times> osm_object list" where
  "OsmFileIterator sv stages st [] = ([], st, None, [])"
| "OsmFileIterator sv stages st (x # xs) =
     (case run_stages sv stages st x of
        (st1, Raise code) \<Rightarrow> ([], st1, Some code, xs)
      | (st1, Veto) \<Rightarrow> OsmFileIterator sv stages st1 xs
      | (st1, Pass y) \<Rightarrow>
          (case OsmFileIterator sv stages st1 xs of
             (ys, st2, e, rest) \<Rightarrow> (y # ys, st2, e, rest)))"

text \<open>
  Modelled from the spec: when the stream ends the second pass stage is flushed, which
  can stage areas that were finalised only then.
\<close>

definition end_of_stream :: "('c, 'm) services \<Rightarrow> ('c, 'm) pipeline \<Rightarrow> ('c, 'm) pipeline" where
  "end_of_stream sv st =
     (case manager st of
        None \<Rightarrow> st
      | Some m \<Rightarrow> (case flush sv m of (m', areas) \<Rightarrow> st\<lparr>manager := Some m', buffer := buffer st @ areas\<rparr>))"

text \<open>
  Modelled from the spec: \<open>osmium.BufferIterator(*filters)\<close> is true while its buffer holds
  records; iterating it takes the buffered records out one after the other and yields
  those that pass the filter chain. A filter that raises ends the iteration at that
  record. \<open>passing\<close> is what a list of records leaves when no filter raises.
\<close>

fun run_filters :: "filter_stage list \<Rightarrow> osm_object \<Rightarrow> osm_object verdict" where
  "run_filters [] x = Pass x"
| "run_filters (f # fs) x =
     (case f x of
        Pass x' \<Rightarrow> run_filters fs x'
      | Veto \<Rightarrow> Veto
      | Raise code \<Rightarrow> Raise code)"

fun passing :: "filter_stage list \<Rightarrow> osm_object list \<Rightarrow> osm_object list" where
  "passing fs [] = []"
| "passing fs (x # xs) =
     (case run_filters fs x of
        Pass y \<Rightarrow> y # passing fs xs
      | Veto \<Rightarrow> passing fs xs
      | Raise code \<Rightarrow> passing fs xs)"

fun drain_buffer ::
  "filter_stage list \<Rightarrow> osm_object list \<Rightarrow> osm_object list \<times> nat option \<times> osm_object list" where
  "drain_buffer fs [] = ([], None, [])"
| "drain_buffer fs (x # xs) =
     (case run_filters fs x of
        Pass y \<Rightarrow> (case drain_buffer fs xs of (ys, e, rest) \<Rightarrow> (y # ys, e, rest))
      | Veto \<Rightarrow> drain_buffer fs xs
      | Raise code \<Rightarrow> ([], Some code, xs))"

definition BufferIterator_drain ::
  "filter_stage list \<Rightarrow> ('c, 'm) pipeline \<Rightarrow> osm_object list \<times> ('c, 'm) pipeline \<times> nat option" where
  "BufferIterator_drain fs st =
     (if buffer st \<noteq> [] then
        (case drain_buffer fs (buffer st) of (ys, e, rest) \<Rightarrow> (ys, st\<lparr>buffer := rest\<rparr>, e))
      else ([], st, None))"

subsection \<open>Iteration\<close>

text \<open>
  The loop of the second pass (lines 106 to 109): for every record the iterator yields,
  yield it, then yield what the buffer holds. The result keeps the yields of one turn of
  the loop together: the primary record and the areas yielded right after it. An
  exception, of a stage or of a filter of the buffer, ends the loop where it is raised.
\<close>

fun second_pass_loop ::
  "('c, 'm) services \<Rightarrow> stage list \<Rightarrow> filter_stage list \<Rightarrow> ('c, 'm) pipeline \<Rightarrow> osm_object list \<Rightarrow>
   (osm_object \<times> osm_object list) list \<times> ('c, 'm) pipeline \<times> nat option \<times> osm_object list" where
  "second_pass_loop sv stages fs st [] = ([], st, None, [])"
| "second_pass_loop sv stages fs st (x # xs) =
     (case run_stages sv stages st x of
        (st1, Raise code) \<Rightarrow> ([], st1, Some code, xs)
      | (st1, Veto) \<Rightarrow> second_pass_loop sv stages fs st1 xs
      | (st1, Pass obj) \<Rightarrow>
          (case BufferIterator_drain fs st1 of
             (areas, st2, Some code) \<Rightarrow> ([(obj, areas)], st2, Some code, xs)
           | (areas, st2, None) \<Rightarrow>
               (case second_pass_loop sv stages fs st2 xs of
                  (gs, st3, e, rest) \<Rightarrow> ((obj, areas) # gs, st3, e, rest))))"

definition turn_yields :: "osm_object \<times> osm_object list \<Rightarrow> osm_object list" where
  "turn_yields g = fst g # snd g"

text \<open>
  When the loop over a reader ends: with the exception of a stage, or at the end of what
  the reader emits, where the reader raises if it has met a damaged entry.
\<close>

definition raised_by :: "nat option \<Rightarrow> Reader \<Rightarrow> error option" where
  "raised_by e rd =
     (case e of
        Some code \<Rightarrow> Some (ExternalError code)
      | None \<Rightarrow> map_option ExternalError (fails rd))"

text \<open>
  The first pass (lines 97 to 101): a second reader on the same file, for relations only,
  applied to the filters followed by the first pass intake of the area manager, and
  closed in the \<open>finally\<close> clause, whether \<open>osmium.apply\<close> returned or raised. The result
  is the exception, if any, the reader as it is left, and the pipeline after the pass.
\<close>

definition first_pass_run ::
  "('c, 'm) services \<Rightarrow> ('c, 'm) FileProcessor \<Rightarrow> ('c, 'm) pipeline \<Rightarrow>
   error option \<times> Reader \<times> ('c, 'm) pipeline" where
  "first_pass_run sv self st0 =
     (let rd = Reader_open (fp_file self) osm_RELATION
      in case osmium_apply sv (map Filter (filters self) @ [FirstPassHandler]) st0 (unread rd) of
           (st1, e, rest) \<Rightarrow> (raised_by e rd, Reader_close (rd\<lparr>unread := rest\<rparr>), st1))"

text \<open>
  Running the generator \<open>__iter__\<close> to its end: what it yielded, the exception that ended
  it, if any, the processor afterwards (its reader with what it has not emitted, its
  location table and area manager as the handlers left them), the reader of the first
  pass, if one was opened, and what the staging buffer still holds.
\<close>

record ('c, 'm) iteration =
  yielded :: "osm_object list"
  raised :: "error option"
  processor :: "('c, 'm) FileProcessor"
  secondary :: "Reader option"
  staged :: "osm_object list"

text \<open>Lines 85 to 90: the location handler, when there is a location table.\<close>

definition handlers_of :: "('c, 'm) FileProcessor \<Rightarrow> stage list" where
  "handlers_of self = (if node_store self \<noteq> None then [NodeLocationsForWays] else [])"

definition pipeline_of :: "('c, 'm) FileProcessor \<Rightarrow> ('c, 'm) pipeline" where
  "pipeline_of self = \<lparr>cache = node_store self, manager = area_handler self, buffer = []\<rparr>"

text \<open>Line 93: no area handler, one pass.\<close>

definition single_pass_run ::
  "('c, 'm) services \<Rightarrow> ('c, 'm) FileProcessor \<Rightarrow> ('c, 'm) iteration" where
  "single_pass_run sv self =
     (case OsmFileIterator sv (handlers_of self @ map Filter (filters self)) (pipeline_of self)
             (unread (reader self)) of
        (ys, st, e, rest) \<Rightarrow>
          \<lparr>yielded = ys, raised = raised_by e (reader self),
           processor = self\<lparr>reader := (reader self)\<lparr>unread := rest\<rparr>, node_store := cache st\<rparr>,
           secondary = None, staged = []\<rparr>)"

text \<open>
  Lines 103 to 113: the second pass, from the pipeline the first pass left and with a
  fresh buffer. An exception leaves the loop and the generator; else the stream ends,
  and the buffer is looked at once more.
\<close>

definition second_pass_run ::
  "('c, 'm) services \<Rightarrow> ('c, 'm) FileProcessor \<Rightarrow> Reader \<Rightarrow> ('c, 'm) pipeline \<Rightarrow> ('c, 'm) iteration" where
  "second_pass_run sv self rd st1 =
     (case second_pass_loop sv (handlers_of self @ [SecondPassToBuffer] @ map Filter (filters self))
             (filters self) (st1\<lparr>buffer := []\<rparr>) (unread (reader self)) of
        (gs, st2, e, rest) \<Rightarrow>
          (case raised_by e (reader self) of
             Some err \<Rightarrow>
               \<lparr>yielded = concat (map turn_yields gs), raised = Some err,
                processor = self\<lparr>reader := (reader self)\<lparr>unread := rest\<rparr>, node_store := cache st2,
                                  area_handler := manager st2\<rparr>,
                secondary = Some rd, staged = buffer st2\<rparr>
           | None \<Rightarrow>
               (case BufferIterator_drain (filters self) (end_of_stream sv st2) of
                  (areas, st3, e3) \<Rightarrow>
                    \<lparr>yielded = concat (map turn_yields gs) @ areas,
                     raised = map_option ExternalError e3,
                     processor = self\<lparr>reader := (reader self)\<lparr>unread := rest\<rparr>, node_store := cache st3,
                                       area_handler := manager st3\<rparr>,
                     secondary = Some rd, staged = buffer st3\<rparr>)))"

definition FileProcessor_iter ::
  "('c, 'm) services \<Rightarrow> ('c, 'm) FileProcessor \<Rightarrow> ('c, 'm) iteration" where
  "FileProcessor_iter sv self =
     (if area_handler self = None then single_pass_run sv self
      else
        (case first_pass_run sv self (pipeline_of self) of
           (Some e, rd, st1) \<Rightarrow>
             \<lparr>yielded = [], raised = Some e,
              processor = self\<lparr>area_handler := manager st1\<rparr>,
              secondary = Some rd, staged = []\<rparr>
         | (None, rd, st1) \<Rightarrow> second_pass_run sv self rd st1))"

text \<open>
  A small instance of the services, to run the model on concrete inputs: the location
  table is the list of node ids stored, the area manager the list of relation ids its
  first pass has seen; the first pass raises on a relation with id 0, the second pass
  stage assembles one area from every way, and the flush one area from every relation of
  the first pass. No file can be opened by name.
\<close>

definition demo_services :: "(int list, int list) services" where
  "demo_services =
     \<lparr>open_file = (\<lambda>name. Inl 2),
      create_map = (\<lambda>name. if name = ''flex_mem'' then Inr [] else Inl 1),
      store_location = (\<lambda>c x. if type_str x = Node then c @ [obj_id x] else c),
      resolve = (\<lambda>c x. x),
      AreaManager = [],
      first_pass = (\<lambda>m x. if obj_id x = 0 then Inl 5 else Inr (m @ [obj_id x])),
      second_pass = (\<lambda>m x. Inr (m, if type_str x = Way
                                  then [\<lparr>type_str = Area, obj_id = 2 * obj_id x, payload = payload x\<rparr>]
                                  else [])),
      flush = (\<lambda>m. (m, map (\<lambda>i. \<lparr>type_str = Area, obj_id = 2 * i + 1, payload = 0\<rparr>) m))\<rparr>"


subsection \<open>Claims about configuration and single pass iteration\<close>

lemma raised_by_external: "raised_by e rd = Some err \<Longrightarrow> \<exists>code. err = ExternalError code"
  by (auto simp: raised_by_def split: option.splits)

lemma iter_raised_external:
  "raised (FileProcessor_iter sv self) = Some e \<Longrightarrow> \<exists>code. e = ExternalError code"
  by (auto simp: FileProcessor_iter_def single_pass_run_def second_pass_run_def first_pass_run_def
                 Let_def
           split: if_splits prod.splits option.splits dest: raised_by_external)

text \<open>
  Claim C6: when the entity mask of a processor excludes nodes, \<open>with_locations\<close> raises
  \<open>RuntimeError\<close> (the spec's PreconditionError) whatever the storage argument is, and
  leaves the processor, its reader included, as it was: nothing has been read. The
  iteration itself never raises that error; what it raises comes from a collaborator.
\<close>

theorem with_locations_requires_nodes:
  assumes "entities self \<inter> osm_NODE = {}"
  shows "with_locations sv storage self = (Some RuntimeError, self) \<and>
         raised (FileProcessor_iter sv self) \<noteq> Some RuntimeError"
  using assms iter_raised_external[of sv self RuntimeError] by (auto simp: with_locations_def)

theorem with_locations_requires_nodes_witness:
  "entities (FileProcessor_new [Rec \<lparr>type_str = Way, obj_id = 4, payload = 0\<rparr>]
               {Way, Relation} :: (int list, int list) FileProcessor) \<inter> osm_NODE = {} \<and>
   fst (with_locations demo_services (StorageStr ''flex_mem'')
          (FileProcessor_new [Rec \<lparr>type_str = Way, obj_id = 4, payload = 0\<rparr>]
             {Way, Relation})) = Some RuntimeError \<and>
   unread (reader (snd (with_locations demo_services (StorageStr ''flex_mem'')
          (FileProcessor_new [Rec \<lparr>type_str = Way, obj_id = 4, payload = 0\<rparr>]
             {Way, Relation})))) = [\<lparr>type_str = Way, obj_id = 4, payload = 0\<rparr>]"
proof -
  let ?fp = "FileProcessor_new [Rec \<lparr>type_str = Way, obj_id = 4, payload = 0\<rparr>]
               {Way, Relation} :: (int list, int list) FileProcessor"
  have h: "entities ?fp \<inter> osm_NODE = {}" by (simp add: FileProcessor_new_def osm_NODE_def)
  have r: "unread (reader ?fp) = [\<lparr>type_str = Way, obj_id = 4, payload = 0\<rparr>]"
    by (simp add: FileProcessor_new_def Reader_open_def)
  show ?thesis
    using h r with_locations_requires_nodes[OF h, of demo_services "StorageStr ''flex_mem''"]
    by simp
qed

text \<open>
  Claim C8: \<open>with_areas\<close> is idempotent: a second call leaves the whole processor (area
  handler, location table, filters, mask) as the first call left it, and raises nothing.
  When the first call finds neither an area handler nor a location table, it is
  \<open>with_locations()\<close> with the default \<open>'flex_mem'\<close> on the processor that now has an
  area manager; where nodes are read and the factory knows the name, the processor ends
  with that table.
\<close>

theorem with_areas_idempotent:
  "snd (with_areas sv (snd (with_areas sv self))) = snd (with_areas sv self) \<and>
   fst (with_areas sv (snd (with_areas sv self))) = None \<and>
   (area_handler self = None \<and> node_store self = None \<longrightarrow>
      with_areas sv self =
        with_locations sv (StorageStr ''flex_mem'') (self\<lparr>area_handler := Some (AreaManager sv)\<rparr>)) \<and>
   (area_handler self = None \<and> node_store self = None \<and> entities self \<inter> osm_NODE \<noteq> {} \<and>
    create_map sv ''flex_mem'' = Inr table \<longrightarrow>
      with_areas sv self =
        (None, self\<lparr>area_handler := Some (AreaManager sv), node_store := Some table\<rparr>))"
  by (auto simp: with_areas_def with_locations_def Let_def split: sum.splits)

theorem with_areas_idempotent_witness:
  "snd (with_areas demo_services (snd (with_areas demo_services
      (FileProcessor_new [] {Node, Way, Relation})))) =
   snd (with_areas demo_services (FileProcessor_new [] {Node, Way, Relation})) \<and>
   node_store (snd (with_areas demo_services
      (FileProcessor_new [] {Node, Way, Relation}))) = Some [] \<and>
   area_handler (snd (with_areas demo_services
      (FileProcessor_new [] {Node, Way, Relation}))) = Some []"
proof -
  let ?fp = "FileProcessor_new [] {Node, Way, Relation} :: (int list, int list) FileProcessor"
  have h: "area_handler ?fp = None \<and> node_store ?fp = None \<and> entities ?fp \<inter> osm_NODE \<noteq> {} \<and>
           create_map demo_services ''flex_mem'' = Inr []"
    by (simp add: FileProcessor_new_def osm_NODE_def demo_services_def)
  from with_areas_idempotent[of demo_services ?fp "[]"] h
  have "with_areas demo_services ?fp =
          (None, ?fp\<lparr>area_handler := Some (AreaManager demo_services), node_store := Some []\<rparr>)"
    and "snd (with_areas demo_services (snd (with_areas demo_services ?fp))) =
         snd (with_areas demo_services ?fp)"
    by blast+
  then show ?thesis by (simp add: demo_services_def)
qed

lemma OsmFileIterator_no_stages: "OsmFileIterator sv [] st xs = (xs, st, None, [])"
  by (induction xs arbitrary: st) auto

text \<open>
  Claim C9: without area handler, filters and location table, the iterator yields the
  records of the processor's reader, the same records in the same order.
\<close>

theorem single_pass_plain_output:
  assumes "area_handler self = None" and "filters self = []" and "node_store self = None"
  shows "yielded (FileProcessor_iter sv self) = unread (reader self)"
  using assms
  by (simp add: FileProcessor_iter_def single_pass_run_def handlers_of_def OsmFileIterator_no_stages)

theorem single_pass_plain_output_witness:
  "area_handler (FileProcessor_new
      [Rec \<lparr>type_str = Node, obj_id = 1, payload = 0\<rparr>, Rec \<lparr>type_str = Way, obj_id = 4, payload = 0\<rparr>,
       Rec \<lparr>type_str = Relation, obj_id = 9, payload = 0\<rparr>] {Node, Way}
        :: (int list, int list) FileProcessor) = None \<and>
   yielded (FileProcessor_iter demo_services (FileProcessor_new
      [Rec \<lparr>type_str = Node, obj_id = 1, payload = 0\<rparr>, Rec \<lparr>type_str = Way, obj_id = 4, payload = 0\<rparr>,
       Rec \<lparr>type_str = Relation, obj_id = 9, payload = 0\<rparr>] {Node, Way})) =
     [\<lparr>type_str = Node, obj_id = 1, payload = 0\<rparr>, \<lparr>type_str = Way, obj_id = 4, payload = 0\<rparr>]"
proof -
  let ?fp = "FileProcessor_new
      [Rec \<lparr>type_str = Node, obj_id = 1, payload = 0\<rparr>, Rec \<lparr>type_str = Way, obj_id = 4, payload = 0\<rparr>,
       Rec \<lparr>type_str = Relation, obj_id = 9, payload = 0\<rparr>] {Node, Way}
        :: (int list, int list) FileProcessor"
  have h1: "area_handler ?fp = None" and h2: "filters ?fp = []" and h3: "node_store ?fp = None"
    by (simp_all add: FileProcessor_new_def)
  have r: "unread (reader ?fp) =
     [\<lparr>type_str = Node, obj_id = 1, payload = 0\<rparr>, \<lparr>type_str = Way, obj_id = 4, payload = 0\<rparr>]"
    by (simp add: FileProcessor_new_def Reader_open_def)
  show ?thesis using h1 single_pass_plain_output[OF h1 h2 h3, of demo_services] r by simp
qed

text \<open>
  Claim C10: \<open>with_areas\<close> on a processor that reads ways and relations only and has no
  location table. It raises the \<open>RuntimeError\<close> that \<open>with_locations\<close> raises there, but the
  area manager was assigned before the check: the failed call leaves the processor with
  an area handler, and a second \<open>with_areas\<close> returns normally.
\<close>

theorem with_areas_failure_keeps_area_handler:
  "with_areas demo_services (FileProcessor_new [] {Way, Relation}) =
     (Some RuntimeError,
      (FileProcessor_new [] {Way, Relation})\<lparr>area_handler := Some []\<rparr>) \<and>
   with_locations demo_services (StorageStr ''flex_mem'')
      (FileProcessor_new [] {Way, Relation}) =
     (Some RuntimeError, FileProcessor_new [] {Way, Relation}) \<and>
   with_areas demo_services
      ((FileProcessor_new [] {Way, Relation})\<lparr>area_handler := Some []\<rparr>) =
     (None, (FileProcessor_new [] {Way, Relation})\<lparr>area_handler := Some []\<rparr>)"
  by (simp add: with_areas_def with_locations_def FileProcessor_new_def osm_NODE_def demo_services_def)


subsection \<open>What the loops consume\<close>

lemma run_stages_append:
  "run_stages sv (ss @ ts) st x =
     (case run_stages sv ss st x of
        (st', Pass x') \<Rightarrow> run_stages sv ts st' x'
      | (st', Veto) \<Rightarrow> (st', Veto)
      | (st', Raise code) \<Rightarrow> (st', Raise code))"
  by (induction ss arbitrary: st x) (auto split: prod.splits verdict.splits)

lemma run_stages_filters: "run_stages sv (map Filter fs) st x = (st, run_filters fs x)"
  by (induction fs arbitrary: x) (auto split: verdict.splits)



subsection \<open>Claims about the two passes\<close>



text \<open>A file with a node, a way and a relation.\<close>

definition demo_file :: osm_file where
  "demo_file = [Rec \<lparr>type_str = Node, obj_id = 1, payload = 0\<rparr>, Rec \<lparr>type_str = Way, obj_id = 4, payload = 0\<rparr>,
                Rec \<lparr>type_str = Relation, obj_id = 9, payload = 0\<rparr>]"





text \<open>
  The same when the first pass intake of the area manager raises: the first relation is
  counted, the second makes the intake raise, the third is not read.
\<close>

lemma first_pass_intake_raises:
  "FileProcessor_iter demo_services
     (snd (with_areas demo_services (FileProcessor_new
        [Rec \<lparr>type_str = Relation, obj_id = 8, payload = 0\<rparr>, Rec \<lparr>type_str = Relation, obj_id = 0, payload = 0\<rparr>,
         Rec \<lparr>type_str = Relation, obj_id = 9, payload = 0\<rparr>] {Node, Way, Relation}))) =
   \<lparr>yielded = [], raised = Some (ExternalError 5),
    processor = (snd (with_areas demo_services (FileProcessor_new
        [Rec \<lparr>type_str = Relation, obj_id = 8, payload = 0\<rparr>, Rec \<lparr>type_str = Relation, obj_id = 0, payload = 0\<rparr>,
         Rec \<lparr>type_str = Relation, obj_id = 9, payload = 0\<rparr>] {Node, Way, Relation})))
        \<lparr>area_handler := Some [8]\<rparr>,
    secondary = Some \<lparr>unread = [\<lparr>type_str = Relation, obj_id = 9, payload = 0\<rparr>], fails = None, closed = True\<rparr>,
    staged = []\<rparr>"
  by (simp add: FileProcessor_iter_def first_pass_run_def pipeline_of_def with_areas_def
                with_locations_def FileProcessor_new_def Reader_open_def Reader_close_def
                raised_by_def osm_NODE_def osm_RELATION_def demo_services_def Let_def)


subsection \<open>Filters and the bookkeeping of the handlers\<close>

text \<open>
  The location table after the records \<open>xs\<close> have gone through the location handler, the
  area manager after the records \<open>xs\<close> have gone through its first pass intake without
  an exception, and the records a reader has emitted between two of its states.
\<close>

definition locations_after :: "('c, 'm) services \<Rightarrow> osm_object list \<Rightarrow> 'c option \<Rightarrow> 'c option" where
  "locations_after sv xs = fold (\<lambda>x. map_option (\<lambda>c. store_location sv c x)) xs"

definition membership_after :: "('c, 'm) services \<Rightarrow> osm_object list \<Rightarrow> 'm option \<Rightarrow> 'm option" where
  "membership_after sv xs =
     fold (\<lambda>x. map_option (\<lambda>m. case first_pass sv m x of Inl code \<Rightarrow> m | Inr m' \<Rightarrow> m')) xs"

definition emitted :: "Reader \<Rightarrow> Reader \<Rightarrow> osm_object list" where
  "emitted before after = take (length (unread before) - length (unread after)) (unread before)"

text \<open>A filter that vetoes every relation and passes everything else unchanged.\<close>

definition drop_relations :: filter_stage where
  "drop_relations x = (if type_str x = Relation then Veto else Pass x)"

lemma run_stages_then_filters:
  "run_stages sv (hs @ map Filter fs) st x = (st', Pass y) \<Longrightarrow> \<exists>x'. run_filters fs x' = Pass y"
  by (auto simp: run_stages_append run_stages_filters split: prod.splits verdict.splits)

lemma OsmFileIterator_passed:
  "y \<in> set (fst (OsmFileIterator sv (hs @ map Filter fs) st xs)) \<Longrightarrow> \<exists>x'. run_filters fs x' = Pass y"
proof (induction xs arbitrary: st)
  case Nil
  then show ?case by simp
next
  case (Cons x xs)
  obtain st1 r where r: "run_stages sv (hs @ map Filter fs) st x = (st1, r)" by force
  show ?case
  proof (cases r)
    case Veto
    with Cons r show ?thesis by simp
  next
    case (Raise code)
    with Cons.prems r show ?thesis by simp
  next
    case (Pass z)
    with Cons.prems r have "y = z \<or> y \<in> set (fst (OsmFileIterator sv (hs @ map Filter fs) st1 xs))"
      by (auto split: prod.splits)
    then show ?thesis using Cons.IH run_stages_then_filters[of sv hs fs st x st1 z] r Pass by blast
  qed
qed

lemma drain_buffer_passed:
  "y \<in> set (fst (drain_buffer fs xs)) \<Longrightarrow> \<exists>x'. run_filters fs x' = Pass y"
proof (induction xs)
  case Nil
  then show ?case by simp
next
  case (Cons x xs)
  then show ?case by (cases "run_filters fs x") (auto split: prod.splits)
qed

lemma drain_passed:
  "y \<in> set (fst (BufferIterator_drain fs st)) \<Longrightarrow> \<exists>x'. run_filters fs x' = Pass y"
  using drain_buffer_passed[of y fs "buffer st"]
  by (auto simp: BufferIterator_drain_def split: if_splits prod.splits)

lemma second_pass_loop_passed:
  "g \<in> set (fst (second_pass_loop sv (hs @ map Filter fs) fs st xs)) \<Longrightarrow> y \<in> set (turn_yields g) \<Longrightarrow>
   \<exists>x'. run_filters fs x' = Pass y"
proof (induction xs arbitrary: st)
  case Nil
  then show ?case by simp
next
  case (Cons x xs)
  obtain st1 r where r: "run_stages sv (hs @ map Filter fs) st x = (st1, r)" by force
  show ?case
  proof (cases r)
    case Veto
    with Cons r show ?thesis by simp
  next
    case (Raise code)
    with Cons.prems r show ?thesis by simp
  next
    case (Pass z)
    obtain areas st2 e where d: "BufferIterator_drain fs st1 = (areas, st2, e)" by (metis prod_cases3)
    from Cons.prems(1) r Pass d
    have "g = (z, areas) \<or> g \<in> set (fst (second_pass_loop sv (hs @ map Filter fs) fs st2 xs))"
      by (cases e) (auto split: prod.splits)
    then show ?thesis
    proof
      assume g: "g = (z, areas)"
      with Cons.prems(2) have "y = z \<or> y \<in> set areas" by (auto simp: turn_yields_def)
      then show ?thesis
        using run_stages_then_filters[of sv hs fs st x st1 z] r Pass drain_passed[of y fs st1] d
        by auto
    next
      assume "g \<in> set (fst (second_pass_loop sv (hs @ map Filter fs) fs st2 xs))"
      from Cons.IH[OF this Cons.prems(2)] show ?thesis .
    qed
  qed
qed

lemma single_pass_yields_passed:
  "y \<in> set (yielded (single_pass_run sv self)) \<Longrightarrow> \<exists>x. run_filters (filters self) x = Pass y"
  using OsmFileIterator_passed[of y sv "handlers_of self" "filters self" "pipeline_of self" "unread (reader self)"]
  by (auto simp: single_pass_run_def split: prod.splits)

lemma second_pass_yields_passed:
  assumes "y \<in> set (yielded (second_pass_run sv self rd st1))"
  shows "\<exists>x. run_filters (filters self) x = Pass y"
proof -
  obtain gs st2 e rest where lp:
    "second_pass_loop sv ((handlers_of self @ [SecondPassToBuffer]) @ map Filter (filters self)) (filters self)
       (st1\<lparr>buffer := []\<rparr>) (unread (reader self)) = (gs, st2, e, rest)" by (metis prod_cases4)
  obtain areas st3 e3 where dr:
    "BufferIterator_drain (filters self) (end_of_stream sv st2) = (areas, st3, e3)"
    by (metis prod_cases3)
  have "yielded (second_pass_run sv self rd st1) = concat (map turn_yields gs) \<or>
        yielded (second_pass_run sv self rd st1) = concat (map turn_yields gs) @ areas"
    using lp dr by (simp add: second_pass_run_def split: option.splits)
  with assms have "(\<exists>g\<in>set gs. y \<in> set (turn_yields g)) \<or> y \<in> set areas" by auto
  then show ?thesis
  proof
    assume "\<exists>g\<in>set gs. y \<in> set (turn_yields g)"
    then obtain g where g: "g \<in> set gs" "y \<in> set (turn_yields g)" by blast
    from g(1) lp have "g \<in> set (fst (second_pass_loop sv ((handlers_of self @ [SecondPassToBuffer]) @ map Filter (filters self))
          (filters self) (st1\<lparr>buffer := []\<rparr>) (unread (reader self))))"
      by simp
    from second_pass_loop_passed[OF this g(2)] show ?thesis .
  next
    assume "y \<in> set areas"
    with dr have "y \<in> set (fst (BufferIterator_drain (filters self) (end_of_stream sv st2)))" by simp
    then show ?thesis by (rule drain_passed)
  qed
qed

lemma iter_yields_passed:
  "y \<in> set (yielded (FileProcessor_iter sv self)) \<Longrightarrow> \<exists>x. run_filters (filters self) x = Pass y"
  by (auto simp: FileProcessor_iter_def split: if_splits prod.splits option.splits
           dest: single_pass_yields_passed second_pass_yields_passed)


lemma apply_stage_cache_other:
  "s \<noteq> NodeLocationsForWays \<Longrightarrow> cache (fst (apply_stage sv s st x)) = cache st"
  by (cases s) (auto split: option.splits prod.splits sum.splits)

lemma run_stages_cache_other:
  "NodeLocationsForWays \<notin> set ss \<Longrightarrow> cache (fst (run_stages sv ss st x)) = cache st"
proof (induction ss arbitrary: st x)
  case Nil
  then show ?case by simp
next
  case (Cons s ss)
  then have s: "s \<noteq> NodeLocationsForWays" and ss: "NodeLocationsForWays \<notin> set ss" by auto
  obtain st1 r where a: "apply_stage sv s st x = (st1, r)" by force
  from apply_stage_cache_other[OF s, of sv st x] a have c: "cache st1 = cache st" by simp
  show ?case using a c Cons.IH[OF ss, of st1] by (cases r) auto
qed

text \<open>
  The handlers of line 85 to 90 with respect to a pipeline: the location handler alone,
  or none when there is no table.
\<close>

definition locating :: "stage list \<Rightarrow> ('c, 'm) pipeline \<Rightarrow> bool" where
  "locating hs st \<longleftrightarrow> hs = [NodeLocationsForWays] \<or> (hs = [] \<and> cache st = None)"

lemma run_stages_cache:
  assumes "NodeLocationsForWays \<notin> set ts" and "locating hs st"
  shows "cache (fst (run_stages sv (hs @ ts) st x)) = map_option (\<lambda>c. store_location sv c x) (cache st)"
proof (cases "hs = []")
  case True
  with assms show ?thesis by (simp add: locating_def run_stages_cache_other)
next
  case False
  with assms(2) have hs: "hs = [NodeLocationsForWays]" by (simp add: locating_def)
  show ?thesis
  proof (cases "cache st")
    case None
    then show ?thesis using run_stages_cache_other[OF assms(1), of sv st x] by (simp add: hs)
  next
    case (Some c)
    then show ?thesis
      using run_stages_cache_other[OF assms(1), of sv "st\<lparr>cache := Some (store_location sv c x)\<rparr>"]
      by (simp add: hs)
  qed
qed

lemma locating_step:
  assumes "NodeLocationsForWays \<notin> set ts" and "locating hs st"
  shows "locating hs (fst (run_stages sv (hs @ ts) st x))"
  using run_stages_cache[OF assms, of sv x] assms(2) by (auto simp: locating_def)

lemma drain_cache: "cache (fst (snd (BufferIterator_drain fs st))) = cache st"
  by (simp add: BufferIterator_drain_def split: prod.splits)

lemma end_of_stream_cache: "cache (end_of_stream sv st) = cache st"
  by (simp add: end_of_stream_def split: option.splits prod.splits)

lemma locations_after_Cons:
  "locations_after sv (x # xs) c = locations_after sv xs (map_option (\<lambda>c. store_location sv c x) c)"
  by (simp add: locations_after_def)

lemma OsmFileIterator_cache:
  assumes "NodeLocationsForWays \<notin> set ts" and "locating hs st"
    and "OsmFileIterator sv (hs @ ts) st xs = (ys, st', e, rest)"
  shows "\<exists>pre. xs = pre @ rest \<and> cache st' = locations_after sv pre (cache st) \<and> (e = None \<longrightarrow> rest = [])"
  using assms(2,3)
proof (induction xs arbitrary: st ys)
  case Nil
  then show ?case by (simp add: locations_after_def)
next
  case (Cons x xs)
  obtain st1 r where r: "run_stages sv (hs @ ts) st x = (st1, r)" by force
  from run_stages_cache[OF assms(1) Cons.prems(1), of sv x] r
  have c: "cache st1 = map_option (\<lambda>c. store_location sv c x) (cache st)" by simp
  from locating_step[OF assms(1) Cons.prems(1), of sv x] r have l: "locating hs st1" by simp
  show ?case
  proof (cases r)
    case (Raise code)
    with Cons.prems(2) r have "st' = st1" "rest = xs" "e = Some code" by auto
    with c show ?thesis by (intro exI[of _ "[x]"]) (simp add: locations_after_def)
  next
    case Veto
    with Cons.prems(2) r have "OsmFileIterator sv (hs @ ts) st1 xs = (ys, st', e, rest)" by simp
    from Cons.IH[OF l this] obtain pre where
      "xs = pre @ rest \<and> cache st' = locations_after sv pre (cache st1) \<and> (e = None \<longrightarrow> rest = [])"
      by blast
    with c show ?thesis by (intro exI[of _ "x # pre"]) (simp add: locations_after_Cons)
  next
    case (Pass y)
    with Cons.prems(2) r obtain ys' where "OsmFileIterator sv (hs @ ts) st1 xs = (ys', st', e, rest)"
      by (auto split: prod.splits)
    from Cons.IH[OF l this] obtain pre where
      "xs = pre @ rest \<and> cache st' = locations_after sv pre (cache st1) \<and> (e = None \<longrightarrow> rest = [])"
      by blast
    with c show ?thesis by (intro exI[of _ "x # pre"]) (simp add: locations_after_Cons)
  qed
qed

lemma second_pass_loop_cache:
  assumes "NodeLocationsForWays \<notin> set ts" and "locating hs st"
    and "second_pass_loop sv (hs @ ts) fs st xs = (gs, st', e, rest)"
  shows "\<exists>pre. xs = pre @ rest \<and> cache st' = locations_after sv pre (cache st) \<and> (e = None \<longrightarrow> rest = [])"
  using assms(2,3)
proof (induction xs arbitrary: st gs)
  case Nil
  then show ?case by (simp add: locations_after_def)
next
  case (Cons x xs)
  obtain st1 r where r: "run_stages sv (hs @ ts) st x = (st1, r)" by force
  from run_stages_cache[OF assms(1) Cons.prems(1), of sv x] r
  have c: "cache st1 = map_option (\<lambda>c. store_location sv c x) (cache st)" by simp
  from locating_step[OF assms(1) Cons.prems(1), of sv x] r have l: "locating hs st1" by simp
  show ?case
  proof (cases r)
    case (Raise code)
    with Cons.prems(2) r have "st' = st1" "rest = xs" "e = Some code" by auto
    with c show ?thesis by (intro exI[of _ "[x]"]) (simp add: locations_after_def)
  next
    case Veto
    with Cons.prems(2) r have "second_pass_loop sv (hs @ ts) fs st1 xs = (gs, st', e, rest)" by simp
    from Cons.IH[OF l this] obtain pre where
      "xs = pre @ rest \<and> cache st' = locations_after sv pre (cache st1) \<and> (e = None \<longrightarrow> rest = [])"
      by blast
    with c show ?thesis by (intro exI[of _ "x # pre"]) (simp add: locations_after_Cons)
  next
    case (Pass obj)
    obtain areas st2 e2 where d: "BufferIterator_drain fs st1 = (areas, st2, e2)"
      by (metis prod_cases3)
    from drain_cache[of fs st1] d have c2: "cache st2 = cache st1" by simp
    with l have l2: "locating hs st2" by (simp add: locating_def)
    show ?thesis
    proof (cases e2)
      case (Some code)
      with Cons.prems(2) r Pass d have "st' = st2" "rest = xs" "e = Some code" by auto
      with c c2 show ?thesis by (intro exI[of _ "[x]"]) (simp add: locations_after_def)
    next
      case None
      with Cons.prems(2) r Pass d obtain gs' where
        "second_pass_loop sv (hs @ ts) fs st2 xs = (gs', st', e, rest)"
        by (auto split: prod.splits)
      from Cons.IH[OF l2 this] obtain pre where
        "xs = pre @ rest \<and> cache st' = locations_after sv pre (cache st2) \<and> (e = None \<longrightarrow> rest = [])"
        by blast
      with c c2 show ?thesis by (intro exI[of _ "x # pre"]) (simp add: locations_after_Cons)
    qed
  qed
qed

lemma locating_handlers: "cache st = node_store self \<Longrightarrow> locating (handlers_of self) st"
  by (auto simp: locating_def handlers_of_def)

lemma emitted_prefix: "unread before = pre @ unread after \<Longrightarrow> emitted before after = pre"
  by (simp add: emitted_def)

lemma raised_by_None: "raised_by e rd = None \<Longrightarrow> e = None"
  by (simp add: raised_by_def split: option.splits)

lemma single_pass_cache:
  "node_store (processor (single_pass_run sv self)) =
     locations_after sv (emitted (reader self) (reader (processor (single_pass_run sv self))))
       (node_store self) \<and>
   (raised (single_pass_run sv self) = None \<longrightarrow>
      unread (reader (processor (single_pass_run sv self))) = [])"
proof -
  obtain ys st e rest where it:
    "OsmFileIterator sv (handlers_of self @ map Filter (filters self)) (pipeline_of self)
       (unread (reader self)) = (ys, st, e, rest)" by (metis prod_cases4)
  have l: "locating (handlers_of self) (pipeline_of self)"
    by (rule locating_handlers) (simp add: pipeline_of_def)
  have n: "NodeLocationsForWays \<notin> set (map Filter (filters self))" by auto
  from OsmFileIterator_cache[OF n l it] obtain pre where
    pre: "unread (reader self) = pre @ rest" "cache st = locations_after sv pre (node_store self)"
      "e = None \<longrightarrow> rest = []"
    by (auto simp: pipeline_of_def)
  have em: "emitted (reader self) ((reader self)\<lparr>unread := rest\<rparr>) = pre"
    by (rule emitted_prefix) (simp add: pre(1))
  show ?thesis using it pre em by (auto simp: single_pass_run_def dest: raised_by_None)
qed

lemma second_pass_cache:
  assumes "cache st1 = node_store self"
  shows "node_store (processor (second_pass_run sv self rd st1)) =
           locations_after sv (emitted (reader self) (reader (processor (second_pass_run sv self rd st1))))
             (node_store self) \<and>
         (raised (second_pass_run sv self rd st1) = None \<longrightarrow>
            unread (reader (processor (second_pass_run sv self rd st1))) = [])"
proof -
  have l: "locating (handlers_of self) (st1\<lparr>buffer := []\<rparr>)"
    by (rule locating_handlers) (simp add: assms)
  have n: "NodeLocationsForWays \<notin> set ([SecondPassToBuffer] @ map Filter (filters self))" by auto
  obtain gs st2 e rest where lp:
    "second_pass_loop sv (handlers_of self @ [SecondPassToBuffer] @ map Filter (filters self)) (filters self)
       (st1\<lparr>buffer := []\<rparr>) (unread (reader self)) = (gs, st2, e, rest)" by (metis prod_cases4)
  obtain areas st3 e3 where dr:
    "BufferIterator_drain (filters self) (end_of_stream sv st2) = (areas, st3, e3)"
    by (metis prod_cases3)
  from second_pass_loop_cache[OF n l lp] assms obtain pre where
    pre: "unread (reader self) = pre @ rest" "cache st2 = locations_after sv pre (node_store self)"
      "e = None \<longrightarrow> rest = []"
    by auto
  from drain_cache[of "filters self" "end_of_stream sv st2"] dr
  have c3: "cache st3 = cache st2" by (simp add: end_of_stream_cache)
  have em: "emitted (reader self) ((reader self)\<lparr>unread := rest\<rparr>) = pre"
    by (rule emitted_prefix) (simp add: pre(1))
  show ?thesis using lp dr pre c3 em
    by (auto simp: second_pass_run_def split: option.splits dest: raised_by_None)
qed


lemma run_stages_first_pass:
  "run_stages sv (map Filter fs @ [FirstPassHandler]) st x =
     (case run_filters fs x of
        Pass y \<Rightarrow> apply_stage sv FirstPassHandler st y
      | Veto \<Rightarrow> (st, Veto)
      | Raise code \<Rightarrow> (st, Raise code))"
  by (auto simp: run_stages_append run_stages_filters split: verdict.splits prod.splits)

lemma membership_after_Cons:
  "membership_after sv (x # xs) m =
     membership_after sv xs (map_option (\<lambda>m. case first_pass sv m x of Inl code \<Rightarrow> m | Inr m' \<Rightarrow> m') m)"
  by (simp add: membership_after_def)

lemma osmium_apply_first_pass:
  "osmium_apply sv (map Filter fs @ [FirstPassHandler]) st xs = (st', None, rest) \<Longrightarrow>
   manager st' = membership_after sv (passing fs xs) (manager st) \<and> cache st' = cache st"
proof (induction xs arbitrary: st)
  case Nil
  then show ?case by (simp add: membership_after_def)
next
  case (Cons x xs)
  show ?case
  proof (cases "run_filters fs x")
    case Veto
    with Cons.prems have "osmium_apply sv (map Filter fs @ [FirstPassHandler]) st xs = (st', None, rest)"
      by (simp add: run_stages_first_pass)
    from Cons.IH[OF this] Veto show ?thesis by simp
  next
    case (Raise code)
    with Cons.prems show ?thesis by (simp add: run_stages_first_pass)
  next
    case (Pass y)
    show ?thesis
    proof (cases "manager st")
      case None
      with Pass Cons.prems
      have "osmium_apply sv (map Filter fs @ [FirstPassHandler]) st xs = (st', None, rest)"
        by (simp add: run_stages_first_pass)
      from Cons.IH[OF this] Pass None show ?thesis by (simp add: membership_after_Cons)
    next
      case (Some m)
      show ?thesis
      proof (cases "first_pass sv m y")
        case (Inl code)
        with Pass Some Cons.prems show ?thesis by (simp add: run_stages_first_pass)
      next
        case (Inr m')
        with Pass Some Cons.prems
        have "osmium_apply sv (map Filter fs @ [FirstPassHandler]) (st\<lparr>manager := Some m'\<rparr>) xs =
                (st', None, rest)"
          by (simp add: run_stages_first_pass)
        from Cons.IH[OF this] Pass Some Inr show ?thesis by (simp add: membership_after_Cons)
      qed
    qed
  qed
qed

lemma first_pass_run_manager:
  assumes "fst (first_pass_run sv self st0) = None"
  shows "manager (snd (snd (first_pass_run sv self st0))) =
           membership_after sv
             (passing (filters self) (unread (Reader_open (fp_file self) osm_RELATION)))
             (manager st0) \<and>
         cache (snd (snd (first_pass_run sv self st0))) = cache st0"
proof -
  let ?rd = "Reader_open (fp_file self) osm_RELATION"
  obtain st1 e rest where a:
    "osmium_apply sv (map Filter (filters self) @ [FirstPassHandler]) st0 (unread ?rd) = (st1, e, rest)"
    by (metis prod_cases3)
  have r: "first_pass_run sv self st0 = (raised_by e ?rd, Reader_close (?rd\<lparr>unread := rest\<rparr>), st1)"
    using a by (simp add: first_pass_run_def Let_def)
  from assms r have "e = None" by (auto dest: raised_by_None)
  with a osmium_apply_first_pass[of sv "filters self" st0 "unread ?rd" st1 rest]
  show ?thesis unfolding r by simp
qed

lemma emitted_all: "unread after = [] \<Longrightarrow> emitted before after = unread before"
  by (simp add: emitted_def)

lemma iter_cache:
  "node_store (processor (FileProcessor_iter sv self)) =
     locations_after sv (emitted (reader self) (reader (processor (FileProcessor_iter sv self))))
       (node_store self) \<and>
   (raised (FileProcessor_iter sv self) = None \<longrightarrow>
      node_store (processor (FileProcessor_iter sv self)) =
        locations_after sv (unread (reader self)) (node_store self))"
proof (cases "area_handler self")
  case None
  from single_pass_cache[of sv self] show ?thesis
    by (auto simp: FileProcessor_iter_def None emitted_def)
next
  case (Some m)
  obtain e rd st1 where fp: "first_pass_run sv self (pipeline_of self) = (e, rd, st1)"
    by (metis prod_cases3)
  show ?thesis
  proof (cases e)
    case (Some err)
    with fp \<open>area_handler self = Some m\<close> show ?thesis
      by (simp add: FileProcessor_iter_def emitted_def locations_after_def)
  next
    case None
    from first_pass_run_manager[of sv self "pipeline_of self"] fp None
    have c: "cache st1 = node_store self" by (simp add: pipeline_of_def)
    have eq: "FileProcessor_iter sv self = second_pass_run sv self rd st1"
      using fp None \<open>area_handler self = Some m\<close> by (simp add: FileProcessor_iter_def)
    from second_pass_cache[OF c, of sv rd] show ?thesis
      unfolding eq by (auto simp: emitted_def)
  qed
qed

text \<open>
  Claim C2, as stated: it fails for the first pass. There the filters come before the
  first pass intake (line 99), so a relation that a filter vetoes never reaches the area
  manager. With a filter that vetoes relations the manager has seen no relation after the
  first pass; without the filter it has seen relation 9, and the run yields the area
  assembled from it.
\<close>

theorem filtered_relation_not_counted_counterexample:
  "run_filters [drop_relations] \<lparr>type_str = Relation, obj_id = 9, payload = 0\<rparr> = Veto \<and>
   unread (Reader_open demo_file osm_RELATION) = [\<lparr>type_str = Relation, obj_id = 9, payload = 0\<rparr>] \<and>
   manager (snd (snd (first_pass_run demo_services
      (with_filter drop_relations (snd (with_areas demo_services (FileProcessor_new demo_file {Node, Way, Relation}))))
      (pipeline_of (with_filter drop_relations
         (snd (with_areas demo_services (FileProcessor_new demo_file {Node, Way, Relation})))))))) = Some [] \<and>
   manager (snd (snd (first_pass_run demo_services
      (snd (with_areas demo_services (FileProcessor_new demo_file {Node, Way, Relation})))
      (pipeline_of (snd (with_areas demo_services (FileProcessor_new demo_file {Node, Way, Relation}))))))) = Some [9] \<and>
   yielded (FileProcessor_iter demo_services
      (with_filter drop_relations (snd (with_areas demo_services (FileProcessor_new demo_file {Node, Way, Relation}))))) =
     [\<lparr>type_str = Node, obj_id = 1, payload = 0\<rparr>, \<lparr>type_str = Way, obj_id = 4, payload = 0\<rparr>,
      \<lparr>type_str = Area, obj_id = 8, payload = 0\<rparr>] \<and>
   yielded (FileProcessor_iter demo_services
      (snd (with_areas demo_services (FileProcessor_new demo_file {Node, Way, Relation})))) =
     [\<lparr>type_str = Node, obj_id = 1, payload = 0\<rparr>, \<lparr>type_str = Way, obj_id = 4, payload = 0\<rparr>,
      \<lparr>type_str = Area, obj_id = 8, payload = 0\<rparr>, \<lparr>type_str = Relation, obj_id = 9, payload = 0\<rparr>,
      \<lparr>type_str = Area, obj_id = 19, payload = 0\<rparr>]"
  by code_simp

text \<open>
  Claim C2, amended: every record the iterator yields, primary or area, has passed the
  filter chain, so a vetoed record is not in the output. The location table after the
  run is the table after all records the primary reader has emitted went through the
  location handler, vetoed or not: the location handler comes before the filters; in a
  run that raises nothing, and in any run that reads the primary reader to its end,
  these are all records of the reader. In the first pass the
  filters come first: when the pass raises nothing, the area manager has seen exactly the
  relations that passed the filter chain.
\<close>

theorem filters_and_bookkeeping:
  "(\<forall>y\<in>set (yielded (FileProcessor_iter sv self)). \<exists>x. run_filters (filters self) x = Pass y) \<and>
   node_store (processor (FileProcessor_iter sv self)) =
     locations_after sv (emitted (reader self) (reader (processor (FileProcessor_iter sv self))))
       (node_store self) \<and>
   (raised (FileProcessor_iter sv self) = None \<or>
    unread (reader (processor (FileProcessor_iter sv self))) = [] \<longrightarrow>
      node_store (processor (FileProcessor_iter sv self)) =
        locations_after sv (unread (reader self)) (node_store self)) \<and>
   (fst (first_pass_run sv self st0) = None \<longrightarrow>
      manager (snd (snd (first_pass_run sv self st0))) =
        membership_after sv
          (passing (filters self) (unread (Reader_open (fp_file self) osm_RELATION)))
          (manager st0))"
  using iter_yields_passed[of _ sv self] iter_cache[of sv self] first_pass_run_manager[of sv self st0]
        emitted_all[of "reader (processor (FileProcessor_iter sv self))" "reader self"]
  by metis

theorem filters_and_bookkeeping_witness:
  "raised (FileProcessor_iter demo_services (with_filter drop_relations
      (snd (with_areas demo_services (FileProcessor_new demo_file {Node, Way, Relation}))))) = None \<and>
   \<lparr>type_str = Area, obj_id = 8, payload = 0\<rparr> \<in> set (yielded (FileProcessor_iter demo_services
      (with_filter drop_relations (snd (with_areas demo_services (FileProcessor_new demo_file {Node, Way, Relation})))))) \<and>
   (\<exists>x. run_filters [drop_relations] x = Pass \<lparr>type_str = Area, obj_id = 8, payload = 0\<rparr>) \<and>
   node_store (processor (FileProcessor_iter demo_services
      (with_filter drop_relations (snd (with_areas demo_services (FileProcessor_new demo_file {Node, Way, Relation})))))) =
     Some [1] \<and>
   fst (first_pass_run demo_services
      (with_filter drop_relations (snd (with_areas demo_services (FileProcessor_new demo_file {Node, Way, Relation}))))
      \<lparr>cache = Some [], manager = Some [], buffer = []\<rparr>) = None \<and>
   manager (snd (snd (first_pass_run demo_services
      (with_filter drop_relations (snd (with_areas demo_services (FileProcessor_new demo_file {Node, Way, Relation}))))
      \<lparr>cache = Some [], manager = Some [], buffer = []\<rparr>))) = Some []"
proof -
  let ?fp = "with_filter drop_relations
      (snd (with_areas demo_services (FileProcessor_new demo_file {Node, Way, Relation})))"
  let ?st0 = "\<lparr>cache = Some [], manager = Some [], buffer = []\<rparr> :: (int list, int list) pipeline"
  note inst = filters_and_bookkeeping[of demo_services ?fp ?st0]
  have d: "raised (FileProcessor_iter demo_services ?fp) = None" by code_simp
  have p: "fst (first_pass_run demo_services ?fp ?st0) = None" by code_simp
  have y: "\<lparr>type_str = Area, obj_id = 8, payload = 0\<rparr> \<in> set (yielded (FileProcessor_iter demo_services ?fp))"
    by code_simp
  have f: "filters ?fp = [drop_relations]"
    by (simp add: with_filter_def with_areas_def with_locations_def FileProcessor_new_def
                  osm_NODE_def demo_services_def)
  have l: "locations_after demo_services (unread (reader ?fp)) (node_store ?fp) = Some [1]"
    by code_simp
  have m: "membership_after demo_services
       (passing (filters ?fp) (unread (Reader_open (fp_file ?fp) osm_RELATION)))
       (manager ?st0) = Some []"
    by code_simp
  from inst y have t1: "\<exists>x. run_filters (filters ?fp) x = Pass \<lparr>type_str = Area, obj_id = 8, payload = 0\<rparr>"
    by blast
  from inst d have t2: "node_store (processor (FileProcessor_iter demo_services ?fp)) =
        locations_after demo_services (unread (reader ?fp)) (node_store ?fp)"
    by blast
  from inst p have t3: "manager (snd (snd (first_pass_run demo_services ?fp ?st0))) =
     membership_after demo_services
       (passing (filters ?fp) (unread (Reader_open (fp_file ?fp) osm_RELATION)))
       (manager ?st0)"
    by blast
  show ?thesis by (intro conjI d y t1[unfolded f] t2[unfolded l] p t3[unfolded m])
qed


subsection \<open>Draining the staging buffer\<close>














end
